theory Spec2Isabelle
  imports Main "HOL-Library.Multiset"
begin

section \<open>Ordering of columns by field index path\<close>

text \<open>
  The function \<^verbatim>\<open>fields\<close> of \<^verbatim>\<open>pgtools.go\<close> collects one \<^verbatim>\<open>column\<close> per entry of the
  map returned by \<^verbatim>\<open>structref.GetColumnToFieldIndexMap\<close> and sorts them with
  \<^verbatim>\<open>sort.SliceStable\<close>. The local struct \<^verbatim>\<open>column\<close> is a record.
\<close>

record column =
  indices :: "int list"
  name :: string

text \<open>
  The comparison closure given to \<^verbatim>\<open>sort.SliceStable\<close>. Its endless \<^verbatim>\<open>for\<close> loop
  drops the head of both slices in every round, so it is a structural recursion. The
  \<^verbatim>\<open>switch\<close> cases are kept in the order of the source: \<^verbatim>\<open>len(a) == 0\<close> first,
  then \<^verbatim>\<open>len(b) == 0\<close>, then the two comparisons of the heads.
\<close>

fun less_fn :: "int list \<Rightarrow> int list \<Rightarrow> bool" where
  "less_fn [] b = False"
| "less_fn (x # a) [] = True"
| "less_fn (x # a) (y # b) =
     (if x < y then True else if x > y then False else less_fn a b)"

definition column_less :: "column \<Rightarrow> column \<Rightarrow> bool" where
  "column_less ci cj = less_fn (indices ci) (indices cj)"

text \<open>
  \<^verbatim>\<open>sort.SliceStable\<close> of the Go library sorts by insertion: one round takes the next
  element and swaps it leftwards while it is less than its left neighbour. (The library
  does so on blocks of twenty elements and then merges neighbouring blocks in place,
  keeping equal elements in their order; for a comparison that is a strict weak order,
  as the one above is, the outcome is the same stably sorted slice.) \<open>sink\<close> is the
  inner loop on the already sorted prefix, which is held in reverse (nearest neighbour
  first).
\<close>

fun sink :: "('a \<Rightarrow> 'a \<Rightarrow> bool) \<Rightarrow> 'a \<Rightarrow> 'a list \<Rightarrow> 'a list" where
  "sink lt x [] = [x]"
| "sink lt x (y # ys) = (if lt x y then y # sink lt x ys else x # y # ys)"

definition SliceStable :: "('a \<Rightarrow> 'a \<Rightarrow> bool) \<Rightarrow> 'a list \<Rightarrow> 'a list" where
  "SliceStable lt xs = rev (foldl (\<lambda>acc x. sink lt x acc) [] xs)"

text \<open>
  \<^verbatim>\<open>fields\<close>, here \<open>fields_fn\<close> (every record declares a constant \<open>fields\<close>). Its argument
  is the sequence of (name, index path) pairs in the order in which this run of the
  \<^verbatim>\<open>range\<close> statement delivers the entries of the map; Go leaves that order open.
\<close>

definition fields_fn :: "(string \<times> int list) list \<Rightarrow> string list" where
  "fields_fn es =
     map name (SliceStable column_less (map (\<lambda>(nm, i). \<lparr>indices = i, name = nm\<rparr>) es))"

section \<open>Types and values seen through reflection\<close>

text \<open>
  What \<^verbatim>\<open>Fields\<close> reads of its argument through package \<^verbatim>\<open>reflect\<close> is the dynamic type
  and whether that type is a pointer. A struct type carries its name (two struct types
  of equal shape and different name are different cache keys) and its declared fields.
  A field declaration holds the declared identifier, the name override of its tag, the
  ignore marker, the opaque (JSON) marker, whether it is embedded, and its type.
\<close>

datatype gotype = Basic string | Ptr gotype | Struct string "sfield list"
and sfield = SField string "string option" bool bool bool gotype

text \<open>
  An \<^verbatim>\<open>interface{}\<close> argument is the nil interface, a nil pointer whose static type is
  pointer to the given type, or any other value of the given type (a non-nil pointer to
  \<open>T\<close> is \<open>Val (Ptr T)\<close>).
\<close>

datatype iface = Nil | TypedNilPtr gotype | Val gotype

fun TypeOf :: "iface \<Rightarrow> gotype option" where
  "TypeOf Nil = None"
| "TypeOf (TypedNilPtr T) = Some (Ptr T)"
| "TypeOf (Val T) = Some T"

text \<open>
  Lines 92 to 97 of \<^verbatim>\<open>Fields\<close>: a pointer type is replaced by its element type; for
  any other kind \<^verbatim>\<open>reflect.Indirect\<close> leaves the value alone and the type is kept.
\<close>

fun target_type :: "gotype \<Rightarrow> gotype" where
  "target_type (Ptr T) = T"
| "target_type T = T"

text \<open>Whether the kind of a type is \<^verbatim>\<open>reflect.Struct\<close>.\<close>

fun is_struct :: "gotype \<Rightarrow> bool" where
  "is_struct (Struct sn fs) = True"
| "is_struct T = False"

section \<open>The column map of a struct type\<close>

text \<open>
  \<^verbatim>\<open>structref.GetColumnToFieldIndexMap\<close> (package \<^verbatim>\<open>internal/structref\<close>) is called by
  \<^verbatim>\<open>fields\<close> and is not among the sources. The definitions of this section stand for it;
  they follow steps 1 to 4 of the resolver algorithm of the specification.
\<close>

text \<open>
  Modelled from the spec: the name of a field, which \<^verbatim>\<open>structref\<close> derives and whose code
  is missing. It is the override of the field's annotation when there is one, and
  otherwise the declared identifier under the fixed conversion \<open>conv\<close>.
\<close>

fun colname :: "(string \<Rightarrow> string) \<Rightarrow> sfield \<Rightarrow> string" where
  "colname conv (SField ident ov ign opq emb T) = (case ov of Some n \<Rightarrow> n | None \<Rightarrow> conv ident)"

text \<open>
  Modelled from the spec: the walk over the declared fields that \<^verbatim>\<open>structref\<close> performs and
  whose code is missing. Every field is visited with its index, in the order of
  declaration. An ignored field is skipped with all its children. A field of composite
  type that is not marked opaque is entered, the names of its children prefixed with
  its own name and a dot (an embedded composite is flattened in place: no prefix is
  added). Every other field is a terminal column, recorded with its name and its index
  path from the root.
\<close>

fun walk_fields :: "(string \<Rightarrow> string) \<Rightarrow> string \<Rightarrow> int list \<Rightarrow> int \<Rightarrow> sfield list \<Rightarrow> (string \<times> int list) list"
and walk_field :: "(string \<Rightarrow> string) \<Rightarrow> string \<Rightarrow> int list \<Rightarrow> int \<Rightarrow> sfield \<Rightarrow> (string \<times> int list) list"
where
  "walk_fields conv pre ip i [] = []"
| "walk_fields conv pre ip i (f # fs) =
     walk_field conv pre ip i f @ walk_fields conv pre ip (i + 1) fs"
| "walk_field conv pre ip i (SField ident ov ign opq emb (Struct sn fs)) =
     (if ign then []
      else if opq then [(pre @ colname conv (SField ident ov ign opq emb (Struct sn fs)), ip @ [i])]
      else walk_fields conv
             (if emb then pre
              else pre @ colname conv (SField ident ov ign opq emb (Struct sn fs)) @ ''.'')
             (ip @ [i]) 0 fs)"
| "walk_field conv pre ip i (SField ident ov ign opq emb T) =
     (if ign then [] else [(pre @ colname conv (SField ident ov ign opq emb T), ip @ [i])])"

text \<open>
  Modelled from the spec: the columns \<^verbatim>\<open>structref\<close> discovers for a type (code missing).
  A type that is not composite has none.
\<close>

fun discovered :: "(string \<Rightarrow> string) \<Rightarrow> gotype \<Rightarrow> (string \<times> int list) list" where
  "discovered conv (Struct sn fs) = walk_fields conv [] [] 0 fs"
| "discovered conv T = []"

text \<open>
  Modelled from the spec: \<^verbatim>\<open>structref.GetColumnToFieldIndexMap\<close> (code missing). \<^verbatim>\<open>fields\<close>
  ranges over its result with a string key and an index slice as value, so the result is
  a Go map from column name to index path; of two discovered columns of one name the
  map keeps the first.
\<close>

definition GetColumnToFieldIndexMap :: "(string \<Rightarrow> string) \<Rightarrow> gotype \<Rightarrow> (string \<rightharpoonup> int list)" where
  "GetColumnToFieldIndexMap conv T = map_of (discovered conv T)"

text \<open>
  A \<^verbatim>\<open>range\<close> statement over a Go map delivers every entry once, in an order that Go
  leaves open and that may change from run to run. \<open>ranges es M\<close> says that \<open>es\<close> is
  such a sequence for the map \<open>M\<close>.
\<close>

definition ranges :: "(string \<times> int list) list \<Rightarrow> (string \<rightharpoonup> int list) \<Rightarrow> bool" where
  "ranges es M \<longleftrightarrow> distinct (map fst es) \<and> map_of es = M"

section \<open>The cache\<close>

text \<open>
  The local struct \<^verbatim>\<open>field\<close> of \<^verbatim>\<open>Fields\<close> (members \<^verbatim>\<open>t\<close> and \<^verbatim>\<open>v\<close>), an element of
  \<^verbatim>\<open>container/list\<close>, and the struct \<^verbatim>\<open>lru\<close> (members \<^verbatim>\<open>cap\<close>, \<^verbatim>\<open>m\<close>, \<^verbatim>\<open>l\<close>; the mutex
  is left out); the members carry the name of their struct as a prefix, since constants
  \<open>t\<close>, \<open>v\<close>, \<open>m\<close> and \<open>l\<close> would capture the variables of every later statement.
  A \<^verbatim>\<open>*list.Element\<close> is its address together with its \<^verbatim>\<open>Value\<close>, which the program
  never assigns after \<^verbatim>\<open>PushFront\<close>; the list is written front first. The state of the
  program is the cache and the next unused address.
\<close>

record field =
  field_t :: gotype
  field_v :: "string list"

record Element =
  addr :: nat
  Value :: field

record lru =
  lru_cap :: int
  lru_m :: "gotype \<rightharpoonup> Element"
  lru_l :: "Element list"

record world =
  wildcardsCache :: lru
  next_addr :: nat

definition init :: world where
  "init = \<lparr>wildcardsCache = \<lparr>lru_cap = 1000, lru_m = Map.empty, lru_l = []\<rparr>, next_addr = 0\<rparr>"

text \<open>
  The operations of \<^verbatim>\<open>container/list\<close> that \<^verbatim>\<open>Fields\<close> calls. \<^verbatim>\<open>MoveToFront\<close> and
  \<^verbatim>\<open>Remove\<close> do nothing for an element that is not in the list; \<^verbatim>\<open>Back\<close> is nil on an
  empty list.
\<close>

definition in_list :: "Element \<Rightarrow> Element list \<Rightarrow> bool" where
  "in_list e xs \<longleftrightarrow> addr e \<in> set (map addr xs)"

definition MoveToFront :: "Element list \<Rightarrow> Element \<Rightarrow> Element list" where
  "MoveToFront xs e = (if in_list e xs then e # filter (\<lambda>x. addr x \<noteq> addr e) xs else xs)"

definition Remove :: "Element list \<Rightarrow> Element \<Rightarrow> Element list" where
  "Remove xs e = filter (\<lambda>x. addr x \<noteq> addr e) xs"

fun Back :: "Element list \<Rightarrow> Element option" where
  "Back [] = None"
| "Back xs = Some (last xs)"

text \<open>
  Lines 113 to 117: when the list is as long as the capacity, the back element leaves
  the list and its type leaves the map. \<^verbatim>\<open>Remove\<close> of the nil that \<^verbatim>\<open>Back\<close> gives for an
  empty list dereferences nil: that panic is the value \<open>None\<close>.
\<close>

definition evict :: "lru \<Rightarrow> lru option" where
  "evict c =
     (if int (length (lru_l c)) = lru_cap c then
        (case Back (lru_l c) of
           None \<Rightarrow> None
         | Some oldest \<Rightarrow>
             Some (c\<lparr>lru_l := Remove (lru_l c) oldest,
                     lru_m := (lru_m c)(field_t (Value oldest) := None)\<rparr>))
      else Some c)"

text \<open>
  \<^verbatim>\<open>Fields\<close>. The argument \<open>iter\<close> gives, for the type at hand, the entries of its column
  map in the order in which the \<^verbatim>\<open>range\<close> statement of \<^verbatim>\<open>fields\<close> delivers them in this
  call. The result is the returned slice (nil is the empty list) and the new state, or
  \<open>None\<close> for a panic.
\<close>

definition Fields :: "(gotype \<Rightarrow> (string \<times> int list) list) \<Rightarrow> iface \<Rightarrow> world \<Rightarrow> (string list \<times> world) option" where
  "Fields iter v w =
     (case TypeOf v of
        None \<Rightarrow> Some ([], w)
      | Some T \<Rightarrow>
          (let rv = target_type T; c = wildcardsCache w in
           case lru_m c rv of
             Some e \<Rightarrow>
               Some (field_v (Value e),
                     w\<lparr>wildcardsCache := c\<lparr>lru_l := MoveToFront (lru_l c) e\<rparr>\<rparr>)
           | None \<Rightarrow>
               (case evict c of
                  None \<Rightarrow> None
                | Some c' \<Rightarrow>
                    (let columns = fields_fn (iter rv);
                         e = \<lparr>addr = next_addr w, Value = \<lparr>field_t = rv, field_v = columns\<rparr>\<rparr>
                     in Some (columns,
                              \<lparr>wildcardsCache = c'\<lparr>lru_l := e # lru_l c', lru_m := (lru_m c')(rv \<mapsto> e)\<rparr>,
                               next_addr = Suc (next_addr w)\<rparr>)))))"

section \<open>The formatter\<close>

text \<open>
  \<^verbatim>\<open>Wildcard\<close>. \<open>grow_size\<close> is the number handed to \<^verbatim>\<open>Builder.Grow\<close>, which panics on a
  negative number and otherwise only reserves memory. \<open>write_elems\<close> is the loop over
  the elements with its index \<open>n\<close> and the contents of the builder.
\<close>

definition grow_size :: "string list \<Rightarrow> int" where
  "grow_size elems = int (length '','') * (int (length elems) - 1) + sum_list (map (\<lambda>s. int (length s)) elems)"

definition contains_dot :: "string \<Rightarrow> bool" where
  "contains_dot s \<longleftrightarrow> CHR ''.'' \<in> set s"

fun write_elems :: "nat \<Rightarrow> string list \<Rightarrow> string \<Rightarrow> string" where
  "write_elems n [] b = b"
| "write_elems n (s # ss) b =
     write_elems (Suc n) ss
       (let b1 = (if n \<noteq> 0 then b @ '','' else b);
            b2 = b1 @ [CHR 0x22] @ s @ [CHR 0x22]
        in if contains_dot s then b2 @ '' as '' @ [CHR 0x22] @ s @ [CHR 0x22] else b2)"

definition format_elems :: "string list \<Rightarrow> string option" where
  "format_elems elems =
     (if length elems = 0 then Some ''''
      else if grow_size elems < 0 then None
      else Some (write_elems 0 elems ''''))"

definition Wildcard :: "(gotype \<Rightarrow> (string \<times> int list) list) \<Rightarrow> iface \<Rightarrow> world \<Rightarrow> (string \<times> world) option" where
  "Wildcard iter v w =
     (case Fields iter v w of
        None \<Rightarrow> None
      | Some (elems, w') \<Rightarrow>
          (case format_elems elems of None \<Rightarrow> None | Some s \<Rightarrow> Some (s, w')))"

section \<open>States of the cache\<close>

text \<open>
  \<open>consistent\<close>: the keys of the map are the types stored in the list, and every
  element of the list is the element its own type is mapped to. \<open>cache_inv\<close> adds what
  the list library and the allocator guarantee (no element is linked twice, the next
  address is unused), a positive capacity, and the bound on the length.
\<close>

definition consistent :: "lru \<Rightarrow> bool" where
  "consistent c \<longleftrightarrow>
     dom (lru_m c) = (\<lambda>e. field_t (Value e)) ` set (lru_l c) \<and>
     (\<forall>e \<in> set (lru_l c). lru_m c (field_t (Value e)) = Some e)"

definition cache_inv :: "world \<Rightarrow> bool" where
  "cache_inv w \<longleftrightarrow>
     consistent (wildcardsCache w) \<and>
     distinct (map addr (lru_l (wildcardsCache w))) \<and>
     (\<forall>e \<in> set (lru_l (wildcardsCache w)). addr e < next_addr w) \<and>
     0 < lru_cap (wildcardsCache w) \<and>
     int (length (lru_l (wildcardsCache w))) \<le> lru_cap (wildcardsCache w)"

text \<open>
  A call is \<open>legit\<close> when the sequence its \<^verbatim>\<open>range\<close> statement delivers is a sequence of
  the column map of the type it resolves. The reachable states are those that calls of
  \<^verbatim>\<open>Fields\<close> (alone or from \<^verbatim>\<open>Wildcard\<close>) produce from the initial state of the package.
\<close>

definition legit :: "(string \<Rightarrow> string) \<Rightarrow> (gotype \<Rightarrow> (string \<times> int list) list) \<Rightarrow> iface \<Rightarrow> bool" where
  "legit conv iter v \<longleftrightarrow>
     (case TypeOf v of
        None \<Rightarrow> True
      | Some T \<Rightarrow> ranges (iter (target_type T)) (GetColumnToFieldIndexMap conv (target_type T)))"

inductive reachable :: "(string \<Rightarrow> string) \<Rightarrow> world \<Rightarrow> bool" for conv :: "string \<Rightarrow> string" where
  reachable_init: "reachable conv init"
| reachable_Fields:
    "reachable conv w \<Longrightarrow> legit conv iter v \<Longrightarrow> Fields iter v w = Some (cols, w') \<Longrightarrow> reachable conv w'"

text \<open>
  Every cached sequence is what \<^verbatim>\<open>fields\<close> computes for its type, whatever the order of
  the \<^verbatim>\<open>range\<close> statement.
\<close>

definition cached_ok :: "(string \<Rightarrow> string) \<Rightarrow> lru \<Rightarrow> bool" where
  "cached_ok conv c \<longleftrightarrow>
     (\<forall>T e es. lru_m c T = Some e \<longrightarrow> ranges es (GetColumnToFieldIndexMap conv T) \<longrightarrow>
        field_v (Value e) = fields_fn es)"

section \<open>The expression as the specification words it\<close>

text \<open>
  Each name in double quotes, a name with a dot followed by \<^verbatim>\<open> as \<close> and the quoted
  name again, the pieces joined by commas.
\<close>

definition spec_quote :: "string \<Rightarrow> string" where
  "spec_quote s = [CHR 0x22] @ s @ [CHR 0x22]"

definition spec_render :: "string \<Rightarrow> string" where
  "spec_render s = (if CHR ''.'' \<in> set s then spec_quote s @ '' as '' @ spec_quote s else spec_quote s)"

fun spec_join :: "string list \<Rightarrow> string" where
  "spec_join [] = ''''"
| "spec_join [p] = p"
| "spec_join (p # q # ps) = p @ '','' @ spec_join (q # ps)"

section \<open>The order of index paths as the specification words it\<close>


section \<open>Example types\<close>

text \<open>
  The type of the concrete scenario of the specification (fields \<^verbatim>\<open>ID\<close>, \<^verbatim>\<open>Name\<close> and a
  composite \<^verbatim>\<open>Address\<close> with \<^verbatim>\<open>City\<close> and \<^verbatim>\<open>Zip\<close>, named by their tags), and the type of
  its order scenario (fields \<^verbatim>\<open>A\<close>, \<^verbatim>\<open>B\<close> and a composite \<^verbatim>\<open>C\<close> with \<^verbatim>\<open>D\<close> and \<^verbatim>\<open>E\<close>, no tags).
  \<open>backwards\<close> is a \<^verbatim>\<open>range\<close> order that delivers the discovered columns last to first.
\<close>

definition user_type :: gotype where
  "user_type =
     Struct ''User''
       [SField ''ID'' (Some ''id'') False False False (Basic ''int''),
        SField ''Name'' (Some ''name'') False False False (Basic ''string''),
        SField ''Address'' (Some ''address'') False False False
          (Struct ''Address''
             [SField ''City'' (Some ''city'') False False False (Basic ''string''),
              SField ''Zip'' (Some ''zip'') False False False (Basic ''string'')])]"

definition abc_type :: gotype where
  "abc_type =
     Struct ''T''
       [SField ''A'' None False False False (Basic ''int''),
        SField ''B'' None False False False (Basic ''int''),
        SField ''C'' None False False False
          (Struct ''C''
             [SField ''D'' None False False False (Basic ''int''),
              SField ''E'' None False False False (Basic ''int'')])]"

definition backwards :: "(string \<Rightarrow> string) \<Rightarrow> gotype \<Rightarrow> (string \<times> int list) list" where
  "backwards conv T = rev (discovered conv T)"

text \<open>
  A struct whose only field is tagged with the empty name, and a cache of capacity two
  that is full: \<open>user_type\<close> was resolved first and \<^verbatim>\<open>int\<close> after it.
\<close>

definition empty_name_type :: gotype where
  "empty_name_type = Struct ''S'' [SField ''X'' (Some '''') False False False (Basic ''int'')]"

definition int_elem :: Element where
  "int_elem = \<lparr>addr = 1, Value = \<lparr>field_t = Basic ''int'', field_v = []\<rparr>\<rparr>"

definition user_elem :: Element where
  "user_elem =
     \<lparr>addr = 0,
      Value = \<lparr>field_t = user_type, field_v = [''id'', ''name'', ''address.city'', ''address.zip'']\<rparr>\<rparr>"

definition full_cache :: world where
  "full_cache =
     \<lparr>wildcardsCache =
        \<lparr>lru_cap = 2,
         lru_m = [user_type \<mapsto> user_elem, Basic ''int'' \<mapsto> int_elem],
         lru_l = [int_elem, user_elem]\<rparr>,
      next_addr = 2\<rparr>"

section \<open>The comparison is a strict linear order on index paths\<close>

lemmas run_defs =
  Fields_def init_def evict_def fields_fn_def SliceStable_def column_less_def Let_def
  MoveToFront_def Remove_def in_list_def


lemma less_fn_irrefl: "\<not> less_fn a a"
  by (induction a) auto

lemma less_fn_asym: "less_fn a b \<Longrightarrow> \<not> less_fn b a"
  by (induction a b rule: less_fn.induct) (auto split: if_splits)

lemma less_fn_trans: "less_fn a b \<Longrightarrow> less_fn b c \<Longrightarrow> less_fn a c"
proof (induction a b arbitrary: c rule: less_fn.induct)
  case (1 b)
  then show ?case by simp
next
  case (2 x a)
  then show ?case by simp
next
  case (3 x a y b)
  then show ?case by (cases c) (auto split: if_splits)
qed

lemma less_fn_total: "a \<noteq> b \<Longrightarrow> less_fn a b \<or> less_fn b a"
proof (induction a b rule: less_fn.induct)
  case (1 b)
  then show ?case by (cases b) auto
next
  case (2 x a)
  then show ?case by simp
next
  case (3 x a y b)
  then show ?case by auto
qed

lemma less_fn_prefix: "less_fn (b @ x # r) b"
  by (induction b) auto

lemma less_fn_diverge: "x < y \<Longrightarrow> less_fn (p @ x # a) (p @ y # b)"
  by (induction p) auto

lemma less_fn_cases:
  "less_fn a b \<Longrightarrow> (\<exists>p x y a' b'. a = p @ x # a' \<and> b = p @ y # b' \<and> x < y) \<or> (\<exists>x r. a = b @ x # r)"
proof (induction a b rule: less_fn.induct)
  case (1 b)
  then show ?case by simp
next
  case (2 x a)
  then show ?case by simp
next
  case (3 x a y b)
  show ?case
  proof (cases "x < y")
    case True
    then have "x # a = [] @ x # a \<and> y # b = [] @ y # b \<and> x < y" by simp
    then show ?thesis by blast
  next
    case False
    with 3 have eq: "x = y" and l: "less_fn a b" by (auto split: if_splits)
    from 3(1) False eq l
    consider (d) p u w a' b' where "a = p @ u # a'" "b = p @ w # b'" "u < w"
      | (e) u r where "a = b @ u # r" by auto
    then show ?thesis
    proof cases
      case d
      then have "x # a = (x # p) @ u # a' \<and> y # b = (x # p) @ w # b' \<and> u < w"
        using eq by simp
      then show ?thesis by blast
    next
      case e
      then have "x # a = (y # b) @ u # r" using eq by simp
      then show ?thesis by blast
    qed
  qed
qed

lemma less_fn_iff:
  "less_fn a b \<longleftrightarrow> (\<exists>p x y a' b'. a = p @ x # a' \<and> b = p @ y # b' \<and> x < y) \<or> (\<exists>x r. a = b @ x # r)"
proof
  assume "less_fn a b"
  then show "(\<exists>p x y a' b'. a = p @ x # a' \<and> b = p @ y # b' \<and> x < y) \<or> (\<exists>x r. a = b @ x # r)"
    by (rule less_fn_cases)
next
  assume "(\<exists>p x y a' b'. a = p @ x # a' \<and> b = p @ y # b' \<and> x < y) \<or> (\<exists>x r. a = b @ x # r)"
  then show "less_fn a b"
  proof
    assume "\<exists>p x y a' b'. a = p @ x # a' \<and> b = p @ y # b' \<and> x < y"
    then obtain p x y a' b' where "a = p @ x # a'" "b = p @ y # b'" "x < y" by blast
    then show ?thesis by (simp add: less_fn_diverge)
  next
    assume "\<exists>x r. a = b @ x # r"
    then obtain x r where "a = b @ x # r" by blast
    then show ?thesis by (simp add: less_fn_prefix)
  qed
qed

lemma mset_sink: "mset (sink lt x ys) = add_mset x (mset ys)"
  by (induction ys) auto

lemma mset_foldl_sink: "mset (foldl (\<lambda>acc x. sink lt x acc) acc xs) = mset acc + mset xs"
  by (induction xs arbitrary: acc) (auto simp: mset_sink)

lemma mset_SliceStable: "mset (SliceStable lt xs) = mset xs"
  by (simp add: SliceStable_def mset_foldl_sink)

lemma set_sink: "set (sink lt x ys) = insert x (set ys)"
  by (induction ys) auto

lemma sorted_sink:
  assumes asym: "\<And>a b. lt a b \<Longrightarrow> \<not> lt b a"
    and ntr: "\<And>a b c. \<not> lt a b \<Longrightarrow> \<not> lt b c \<Longrightarrow> \<not> lt a c"
  shows "sorted_wrt (\<lambda>u v. \<not> lt u v) ys \<Longrightarrow> sorted_wrt (\<lambda>u v. \<not> lt u v) (sink lt x ys)"
proof (induction ys)
  case Nil
  then show ?case by simp
next
  case (Cons y ys)
  show ?case
  proof (cases "lt x y")
    case True
    with Cons asym show ?thesis by (auto simp: set_sink)
  next
    case False
    with Cons ntr show ?thesis by auto
  qed
qed

lemma sorted_foldl_sink:
  assumes asym: "\<And>a b. lt a b \<Longrightarrow> \<not> lt b a"
    and ntr: "\<And>a b c. \<not> lt a b \<Longrightarrow> \<not> lt b c \<Longrightarrow> \<not> lt a c"
  shows "sorted_wrt (\<lambda>u v. \<not> lt u v) acc \<Longrightarrow>
         sorted_wrt (\<lambda>u v. \<not> lt u v) (foldl (\<lambda>acc x. sink lt x acc) acc xs)"
proof (induction xs arbitrary: acc)
  case Nil
  then show ?case by simp
next
  case (Cons x xs)
  have "sorted_wrt (\<lambda>u v. \<not> lt u v) (sink lt x acc)"
  proof (rule sorted_sink)
    show "\<And>a b. lt a b \<Longrightarrow> \<not> lt b a" by (rule asym)
    show "\<And>a b c. \<not> lt a b \<Longrightarrow> \<not> lt b c \<Longrightarrow> \<not> lt a c" by (rule ntr)
    show "sorted_wrt (\<lambda>u v. \<not> lt u v) acc" by (rule Cons.prems)
  qed
  then show ?case using Cons.IH by simp
qed

lemma sorted_SliceStable:
  assumes asym: "\<And>a b. lt a b \<Longrightarrow> \<not> lt b a"
    and ntr: "\<And>a b c. \<not> lt a b \<Longrightarrow> \<not> lt b c \<Longrightarrow> \<not> lt a c"
  shows "sorted_wrt (\<lambda>u v. \<not> lt v u) (SliceStable lt xs)"
proof -
  have "sorted_wrt (\<lambda>u v. \<not> lt u v) (foldl (\<lambda>acc x. sink lt x acc) [] xs)"
  proof (rule sorted_foldl_sink)
    show "\<And>a b. lt a b \<Longrightarrow> \<not> lt b a" by (rule asym)
    show "\<And>a b c. \<not> lt a b \<Longrightarrow> \<not> lt b c \<Longrightarrow> \<not> lt a c" by (rule ntr)
    show "sorted_wrt (\<lambda>u v. \<not> lt u v) []" by simp
  qed
  then show ?thesis by (simp add: SliceStable_def sorted_wrt_rev)
qed

lemma column_less_asym: "column_less a b \<Longrightarrow> \<not> column_less b a"
  by (simp add: column_less_def less_fn_asym)

lemma column_less_ntr: "\<not> column_less a b \<Longrightarrow> \<not> column_less b c \<Longrightarrow> \<not> column_less a c"
proof
  assume nab: "\<not> column_less a b" and nbc: "\<not> column_less b c" and ac: "column_less a c"
  show False
  proof (cases "indices a = indices b")
    case True
    with ac nbc show False by (simp add: column_less_def)
  next
    case False
    with nab have "less_fn (indices b) (indices a)"
      using less_fn_total [of "indices a" "indices b"] by (simp add: column_less_def)
    with ac have "less_fn (indices b) (indices c)"
      using less_fn_trans [of "indices b" "indices a" "indices c"] by (simp add: column_less_def)
    with nbc show False by (simp add: column_less_def)
  qed
qed

lemma sorted_SliceStable_columns:
  "sorted_wrt (\<lambda>u v. \<not> column_less v u) (SliceStable column_less cs)"
proof (rule sorted_SliceStable)
  show "\<And>a b. column_less a b \<Longrightarrow> \<not> column_less b a" by (rule column_less_asym)
  show "\<And>a b c. \<not> column_less a b \<Longrightarrow> \<not> column_less b c \<Longrightarrow> \<not> column_less a c"
    by (rule column_less_ntr)
qed

lemma SliceStable_sorted_foldl:
  "sorted_wrt (\<lambda>u v. \<not> lt v u) (rev acc @ xs) \<Longrightarrow>
   rev (foldl (\<lambda>acc x. sink lt x acc) acc xs) = rev acc @ xs"
proof (induction xs arbitrary: acc)
  case Nil
  then show ?case by simp
next
  case (Cons x xs)
  have s: "sink lt x acc = x # acc"
  proof (cases acc)
    case Nil
    then show ?thesis by simp
  next
    case (Cons y ys)
    with Cons.prems have "\<not> lt x y" by (auto simp: sorted_wrt_append)
    with Cons show ?thesis by simp
  qed
  from Cons.prems have "sorted_wrt (\<lambda>u v. \<not> lt v u) (rev (x # acc) @ xs)" by simp
  from Cons.IH [OF this] s show ?case by simp
qed

lemma SliceStable_sorted: "sorted_wrt (\<lambda>u v. \<not> lt v u) xs \<Longrightarrow> SliceStable lt xs = xs"
  using SliceStable_sorted_foldl [of lt "[]" xs] by (simp add: SliceStable_def)

lemma strict_sorted_unique:
  assumes asym: "\<And>a b. lt a b \<Longrightarrow> \<not> lt b a"
  shows "sorted_wrt lt xs \<Longrightarrow> sorted_wrt lt ys \<Longrightarrow> set xs = set ys \<Longrightarrow> xs = ys"
proof (induction xs arbitrary: ys)
  case Nil
  then show ?case by simp
next
  case (Cons x xs)
  then obtain y ys' where ys: "ys = y # ys'" by (cases ys) auto
  have irr: "\<And>a. \<not> lt a a" using asym by blast
  have xy: "x = y"
  proof (rule ccontr)
    assume ne: "x \<noteq> y"
    with Cons.prems ys have "x \<in> set ys'" "y \<in> set xs" by auto
    with Cons.prems ys have "lt y x" "lt x y" by auto
    with asym show False by blast
  qed
  have nx: "x \<notin> set xs" using Cons.prems(1) irr by auto
  have ny: "y \<notin> set ys'" using Cons.prems(2) ys irr by auto
  have "set xs = set ys'" using Cons.prems(3) ys xy nx ny by auto
  with Cons ys have "xs = ys'" by simp
  with xy ys show ?case by simp
qed

section \<open>The expression that Wildcard builds\<close>

lemma grow_size_nonneg: "elems \<noteq> [] \<Longrightarrow> 0 \<le> grow_size elems"
proof -
  assume ne: "elems \<noteq> []"
  have "0 \<le> sum_list (map (\<lambda>s. int (length s)) elems)"
    by (rule sum_list_nonneg) auto
  moreover from ne have "0 < length elems" by simp
  ultimately show ?thesis by (simp add: grow_size_def)
qed

lemma spec_join_Cons: "spec_join (p # ps) = p @ concat (map (\<lambda>q. '','' @ q) ps)"
  by (induction ps arbitrary: p) auto

lemma write_elems_pos:
  "n \<noteq> 0 \<Longrightarrow> write_elems n ss b = b @ concat (map (\<lambda>s. '','' @ spec_render s) ss)"
  by (induction ss arbitrary: n b)
     (auto simp: spec_render_def spec_quote_def contains_dot_def Let_def)

lemma write_elems_spec: "elems \<noteq> [] \<Longrightarrow> write_elems 0 elems '''' = spec_join (map spec_render elems)"
proof (cases elems)
  case Nil
  assume "elems \<noteq> []"
  with Nil show ?thesis by simp
next
  case (Cons s ss)
  have "write_elems 0 (s # ss) '''' = write_elems (Suc 0) ss (spec_render s)"
    by (simp add: spec_render_def spec_quote_def contains_dot_def Let_def)
  also have "\<dots> = spec_render s @ concat (map (\<lambda>s. '','' @ spec_render s) ss)"
    by (rule write_elems_pos) simp
  also have "\<dots> = spec_join (map spec_render (s # ss))"
    by (simp add: spec_join_Cons comp_def)
  finally show ?thesis using Cons by simp
qed

lemma format_elems_spec: "elems \<noteq> [] \<Longrightarrow> format_elems elems = Some (spec_join (map spec_render elems))"
  using grow_size_nonneg [of elems] write_elems_spec [of elems]
  by (simp add: format_elems_def)

lemma format_elems_Nil: "format_elems [] = Some ''''"
  by (simp add: format_elems_def)

text \<open>
  C6. When \<^verbatim>\<open>Fields\<close> returns a list of names that is not empty, \<^verbatim>\<open>Wildcard\<close> returns the
  names in the same order, joined by commas, each name in double quotes, and each name
  that contains a dot followed by \<^verbatim>\<open> as \<close> and the quoted name again; a name without a
  dot gets no alias.
\<close>

theorem Wildcard_format:
  "Fields iter v w = Some (elems, w') \<Longrightarrow> elems \<noteq> [] \<Longrightarrow>
   Wildcard iter v w = Some (spec_join (map spec_render elems), w') \<and>
   (\<forall>s \<in> set elems. spec_render s =
      (if CHR ''.'' \<in> set s then [CHR 0x22] @ s @ [CHR 0x22] @ '' as '' @ [CHR 0x22] @ s @ [CHR 0x22]
       else [CHR 0x22] @ s @ [CHR 0x22]))"
proof -
  assume f: "Fields iter v w = Some (elems, w')" and ne: "elems \<noteq> []"
  from ne have "format_elems elems = Some (spec_join (map spec_render elems))"
    by (rule format_elems_spec)
  with f have 1: "Wildcard iter v w = Some (spec_join (map spec_render elems), w')"
    by (simp add: Wildcard_def)
  have 2: "\<forall>s \<in> set elems. spec_render s =
      (if CHR ''.'' \<in> set s then [CHR 0x22] @ s @ [CHR 0x22] @ '' as '' @ [CHR 0x22] @ s @ [CHR 0x22]
       else [CHR 0x22] @ s @ [CHR 0x22])"
    by (simp add: spec_render_def spec_quote_def)
  from 1 2 show ?thesis by (rule conjI)
qed

theorem Wildcard_format_witness:
  "map_option fst (Wildcard (backwards (\<lambda>s. s)) (Val user_type) init) =
     Some ([CHR 0x22] @ ''id'' @ [CHR 0x22] @ '','' @ [CHR 0x22] @ ''name'' @ [CHR 0x22] @ '','' @
           [CHR 0x22] @ ''address.city'' @ [CHR 0x22] @ '' as '' @ [CHR 0x22] @ ''address.city'' @ [CHR 0x22] @ '','' @
           [CHR 0x22] @ ''address.zip'' @ [CHR 0x22] @ '' as '' @ [CHR 0x22] @ ''address.zip'' @ [CHR 0x22])"
proof -
  obtain w' where f: "Fields (backwards (\<lambda>s. s)) (Val user_type) init =
      Some ([''id'', ''name'', ''address.city'', ''address.zip''], w')"
    by (simp add: run_defs backwards_def user_type_def)
  have ne: "[''id'', ''name'', ''address.city'', ''address.zip''] \<noteq> []" by simp
  show ?thesis
    using Wildcard_format [OF f ne] by (simp add: spec_render_def spec_quote_def)
qed

section \<open>The index paths of the discovered columns\<close>

lemma walk_paths:
  "\<forall>p \<in> snd ` set (walk_fields conv pre ip i fs). \<exists>j r. p = ip @ j # r \<and> i \<le> j"
  "\<forall>p \<in> snd ` set (walk_field conv pre ip i f). \<exists>r. p = ip @ i # r"
proof (induction conv pre ip i fs and conv pre ip i f rule: walk_fields_walk_field.induct)
  case (1 conv pre ip i)
  then show ?case by simp
next
  case (2 conv pre ip i f fs)
  show ?case
  proof
    fix p assume "p \<in> snd ` set (walk_fields conv pre ip i (f # fs))"
    then consider (a) "p \<in> snd ` set (walk_field conv pre ip i f)"
      | (b) "p \<in> snd ` set (walk_fields conv pre ip (i + 1) fs)"
      by auto
    then show "\<exists>j r. p = ip @ j # r \<and> i \<le> j"
    proof cases
      case a
      with 2(1) obtain r where "p = ip @ i # r" by blast
      then show ?thesis by blast
    next
      case b
      with 2(2) obtain j r where "p = ip @ j # r" "i + 1 \<le> j" by blast
      then have "p = ip @ j # r \<and> i \<le> j" by simp
      then show ?thesis by blast
    qed
  qed
next
  case (3 conv pre ip i ident ov ign opq emb sn fs)
  show ?case
  proof (cases "ign \<or> opq")
    case True
    then show ?thesis by auto
  next
    case False
    define pre' where "pre' = (if emb then pre
              else pre @ colname conv (SField ident ov ign opq emb (Struct sn fs)) @ ''.'')"
    from False have eq: "walk_field conv pre ip i (SField ident ov ign opq emb (Struct sn fs)) =
        walk_fields conv pre' (ip @ [i]) 0 fs"
      by (simp add: pre'_def del: colname.simps)
    from 3 False have ih: "\<forall>p \<in> snd ` set (walk_fields conv pre' (ip @ [i]) 0 fs).
        \<exists>j r. p = (ip @ [i]) @ j # r \<and> 0 \<le> j"
      by (simp add: pre'_def del: colname.simps)
    show ?thesis
    proof
      fix p assume "p \<in> snd ` set (walk_field conv pre ip i (SField ident ov ign opq emb (Struct sn fs)))"
      with eq have "p \<in> snd ` set (walk_fields conv pre' (ip @ [i]) 0 fs)" by simp
      with ih obtain j r where "p = (ip @ [i]) @ j # r" by blast
      then have "p = ip @ i # (j # r)" by simp
      then show "\<exists>r. p = ip @ i # r" by blast
    qed
  qed
qed simp_all

lemma walk_sorted:
  "sorted_wrt less_fn (map snd (walk_fields conv pre ip i fs))"
  "sorted_wrt less_fn (map snd (walk_field conv pre ip i f))"
proof (induction conv pre ip i fs and conv pre ip i f rule: walk_fields_walk_field.induct)
  case (1 conv pre ip i)
  then show ?case by simp
next
  case (2 conv pre ip i f fs)
  have cross: "less_fn p q"
    if "p \<in> snd ` set (walk_field conv pre ip i f)"
      and "q \<in> snd ` set (walk_fields conv pre ip (i + 1) fs)" for p q
  proof -
    from that(1) walk_paths(2) [of conv pre ip i f] obtain r where p: "p = ip @ i # r" by blast
    from that(2) walk_paths(1) [of conv pre ip "i + 1" fs]
    obtain j r' where q: "q = ip @ j # r'" "i + 1 \<le> j" by blast
    from q(2) have "i < j" by simp
    then show ?thesis unfolding p q(1) by (rule less_fn_diverge)
  qed
  have "sorted_wrt less_fn (map snd (walk_field conv pre ip i f) @ map snd (walk_fields conv pre ip (i + 1) fs))"
    unfolding sorted_wrt_append using 2 cross by auto
  then show ?case by simp
next
  case (3 conv pre ip i ident ov ign opq emb sn fs)
  then show ?case by auto
qed simp_all

lemma discovered_sorted: "sorted_wrt less_fn (map snd (discovered conv T))"
  by (cases T) (simp_all add: walk_sorted)

lemma strict_sorted_distinct:
  assumes irr: "\<And>a. \<not> lt a a"
  shows "sorted_wrt lt xs \<Longrightarrow> distinct xs"
  by (induction xs) (use irr in auto)

lemma discovered_distinct_paths: "distinct (map snd (discovered conv T))"
  using strict_sorted_distinct [of less_fn, OF less_fn_irrefl discovered_sorted] .

section \<open>fields does not depend on the order of the range statement\<close>

lemma ranges_set: "ranges es M \<Longrightarrow> set es = {(k, p). M k = Some p}"
  by (auto simp: ranges_def)

lemma ranges_distinct: "ranges es M \<Longrightarrow> distinct es"
  by (auto simp: ranges_def distinct_map)

lemma ranges_mset: "ranges es1 M \<Longrightarrow> ranges es2 M \<Longrightarrow> mset es1 = mset es2"
proof -
  assume a: "ranges es1 M" and b: "ranges es2 M"
  then have "set es1 = set es2" by (simp add: ranges_set)
  with a b show ?thesis
    using set_eq_iff_mset_eq_distinct [of es1 es2] by (simp add: ranges_distinct)
qed

lemma ranges_distinct_paths:
  assumes r: "ranges es (GetColumnToFieldIndexMap conv T)"
  shows "distinct (map snd es)"
proof -
  have sub: "set es \<subseteq> set (discovered conv T)"
    using ranges_set [OF r] by (auto simp: GetColumnToFieldIndexMap_def dest: map_of_SomeD)
  have "inj_on snd (set (discovered conv T))"
    using discovered_distinct_paths [of conv T] by (simp add: distinct_map)
  then have "inj_on snd (set es)" using sub by (rule inj_on_subset)
  with ranges_distinct [OF r] show ?thesis by (simp add: distinct_map)
qed

lemma sorted_strict_columns:
  "sorted_wrt (\<lambda>u v. \<not> column_less v u) cs \<Longrightarrow> distinct (map indices cs) \<Longrightarrow>
   sorted_wrt column_less cs"
proof (induction cs)
  case Nil
  then show ?case by simp
next
  case (Cons c cs)
  have "column_less c d" if d: "d \<in> set cs" for d
  proof -
    from Cons.prems d have "\<not> column_less d c" "indices c \<noteq> indices d" by auto
    then show ?thesis
      using less_fn_total [of "indices c" "indices d"] by (simp add: column_less_def)
  qed
  with Cons show ?case by simp
qed

lemma fields_fn_mset:
  assumes m: "mset es1 = mset es2" and d: "distinct (map snd es1)"
  shows "fields_fn es1 = fields_fn es2"
proof -
  let ?mk = "\<lambda>(nm, i). \<lparr>indices = i, name = nm\<rparr>"
  let ?c1 = "SliceStable column_less (map ?mk es1)"
  let ?c2 = "SliceStable column_less (map ?mk es2)"
  have ind: "indices \<circ> ?mk = snd" by (auto simp: fun_eq_iff)
  have m1: "mset ?c1 = mset (map ?mk es1)" by (rule mset_SliceStable)
  have m2: "mset ?c2 = mset (map ?mk es2)" by (rule mset_SliceStable)
  have mm: "mset (map ?mk es1) = mset (map ?mk es2)"
    by (simp add: m)
  have "mset (map snd es1) = mset (map snd es2)" by (simp add: m)
  from mset_eq_imp_distinct_iff [OF this] d have d2: "distinct (map snd es2)" by simp
  have "mset (map indices ?c1) = mset (map snd es1)"
    using arg_cong [OF m1, of "image_mset indices"] by (simp add: ind del: mset_map flip: mset_map)
  from mset_eq_imp_distinct_iff [OF this] d have i1: "distinct (map indices ?c1)" by simp
  have "mset (map indices ?c2) = mset (map snd es2)"
    using arg_cong [OF m2, of "image_mset indices"] by (simp add: ind del: mset_map flip: mset_map)
  from mset_eq_imp_distinct_iff [OF this] d2 have i2: "distinct (map indices ?c2)" by simp
  have s1: "sorted_wrt column_less ?c1"
    using sorted_SliceStable_columns i1 by (rule sorted_strict_columns)
  have s2: "sorted_wrt column_less ?c2"
    using sorted_SliceStable_columns i2 by (rule sorted_strict_columns)
  have "mset ?c1 = mset ?c2" using m1 m2 mm by simp
  then have se: "set ?c1 = set ?c2" by (rule mset_eq_setD)
  have "?c1 = ?c2"
  proof (rule strict_sorted_unique [of column_less])
    show "\<And>a b. column_less a b \<Longrightarrow> \<not> column_less b a" by (rule column_less_asym)
  qed (rule s1, rule s2, rule se)
  then show ?thesis by (simp add: fields_fn_def)
qed

lemma fields_fn_ranges:
  "ranges es1 (GetColumnToFieldIndexMap conv T) \<Longrightarrow> ranges es2 (GetColumnToFieldIndexMap conv T) \<Longrightarrow>
   fields_fn es1 = fields_fn es2"
  by (rule fields_fn_mset [OF ranges_mset ranges_distinct_paths])

lemma fields_fn_sorted:
  assumes "sorted_wrt less_fn (map snd es)"
  shows "fields_fn es = map fst es"
proof -
  let ?mk = "\<lambda>(nm, i). \<lparr>indices = i, name = nm\<rparr>"
  have "sorted_wrt (\<lambda>u v. less_fn (indices u) (indices v)) (map ?mk es)"
    using assms by (induction es) auto
  then have "sorted_wrt (\<lambda>u v. \<not> column_less v u) (map ?mk es)"
    by (rule sorted_wrt_mono_rel [rotated]) (simp add: column_less_def less_fn_asym)
  then have "SliceStable column_less (map ?mk es) = map ?mk es" by (rule SliceStable_sorted)
  moreover have "map name (map ?mk es) = map fst es" by (induction es) auto
  ultimately show ?thesis by (simp add: fields_fn_def)
qed

lemma ranges_discovered:
  "distinct (map fst (discovered conv T)) \<Longrightarrow> ranges (discovered conv T) (GetColumnToFieldIndexMap conv T)"
  by (simp add: ranges_def GetColumnToFieldIndexMap_def)

lemma fields_fn_discovered:
  assumes r: "ranges es (GetColumnToFieldIndexMap conv T)"
    and d: "distinct (map fst (discovered conv T))"
  shows "fields_fn es = map fst (discovered conv T)"
proof -
  have "fields_fn es = fields_fn (discovered conv T)"
    using r ranges_discovered [OF d] by (rule fields_fn_ranges)
  also have "\<dots> = map fst (discovered conv T)"
    using discovered_sorted by (rule fields_fn_sorted)
  finally show ?thesis .
qed

lemma fields_fn_Nil: "fields_fn [] = []"
  by (simp add: fields_fn_def SliceStable_def)

section \<open>Steps of the cache\<close>

lemma distinct_addr_distinct: "distinct (map addr xs) \<Longrightarrow> distinct xs"
  by (simp add: distinct_map)

lemma filter_addr_remove1:
  "distinct (map addr xs) \<Longrightarrow> e \<in> set xs \<Longrightarrow>
   filter (\<lambda>x. addr x \<noteq> addr e) xs = remove1 e xs"
proof (induction xs)
  case Nil
  then show ?case by simp
next
  case (Cons x xs)
  show ?case
  proof (cases "x = e")
    case True
    with Cons.prems have "addr e \<notin> addr ` set xs" by simp
    then have "\<forall>y \<in> set xs. addr y \<noteq> addr e" by (metis imageI)
    then have "filter (\<lambda>x. addr x \<noteq> addr e) xs = xs" by (simp add: filter_id_conv)
    with True show ?thesis by simp
  next
    case False
    with Cons.prems have "e \<in> set xs" "addr x \<noteq> addr e" by auto
    with Cons show ?thesis using False by simp
  qed
qed

lemma remove1_last: "distinct xs \<Longrightarrow> xs \<noteq> [] \<Longrightarrow> remove1 (last xs) xs = butlast xs"
  by (induction xs) auto

lemma Remove_Back:
  "distinct (map addr xs) \<Longrightarrow> xs \<noteq> [] \<Longrightarrow> Remove xs (last xs) = butlast xs"
  by (simp add: Remove_def filter_addr_remove1 remove1_last distinct_addr_distinct)

lemma MoveToFront_member:
  "distinct (map addr xs) \<Longrightarrow> e \<in> set xs \<Longrightarrow> MoveToFront xs e = e # remove1 e xs"
  by (simp add: MoveToFront_def in_list_def filter_addr_remove1)

lemma consistent_lookup:
  assumes "consistent c" and "lru_m c T = Some e"
  shows "e \<in> set (lru_l c) \<and> field_t (Value e) = T"
proof -
  from assms(2) have "T \<in> dom (lru_m c)" by blast
  with assms(1) obtain e' where e': "e' \<in> set (lru_l c)" "field_t (Value e') = T"
    by (auto simp: consistent_def)
  with assms(1) have "lru_m c T = Some e'" by (auto simp: consistent_def)
  with assms(2) e' show ?thesis by simp
qed

lemma consistent_inj:
  assumes "consistent c"
  shows "inj_on (\<lambda>e. field_t (Value e)) (set (lru_l c))"
proof (rule inj_onI)
  fix x y assume "x \<in> set (lru_l c)" "y \<in> set (lru_l c)" "field_t (Value x) = field_t (Value y)"
  with assms have "Some x = Some y" by (metis consistent_def)
  then show "x = y" by simp
qed

lemma Fields_Nil: "Fields iter Nil w = Some ([], w)"
  by (simp add: Fields_def)

lemma Fields_hit:
  "TypeOf v = Some T \<Longrightarrow> lru_m (wildcardsCache w) (target_type T) = Some e \<Longrightarrow>
   Fields iter v w =
     Some (field_v (Value e),
           w\<lparr>wildcardsCache := (wildcardsCache w)\<lparr>lru_l := MoveToFront (lru_l (wildcardsCache w)) e\<rparr>\<rparr>)"
  by (simp add: Fields_def Let_def)

lemma Fields_miss:
  "TypeOf v = Some T \<Longrightarrow> lru_m (wildcardsCache w) (target_type T) = None \<Longrightarrow>
   evict (wildcardsCache w) = Some c' \<Longrightarrow>
   Fields iter v w =
     Some (fields_fn (iter (target_type T)),
           \<lparr>wildcardsCache =
              c'\<lparr>lru_l := \<lparr>addr = next_addr w,
                             Value = \<lparr>field_t = target_type T, field_v = fields_fn (iter (target_type T))\<rparr>\<rparr> # lru_l c',
                 lru_m := (lru_m c')(target_type T \<mapsto>
                            \<lparr>addr = next_addr w,
                             Value = \<lparr>field_t = target_type T, field_v = fields_fn (iter (target_type T))\<rparr>\<rparr>)\<rparr>,
            next_addr = Suc (next_addr w)\<rparr>)"
  by (simp add: Fields_def Let_def)

lemma evict_below:
  "int (length (lru_l c)) \<noteq> lru_cap c \<Longrightarrow> evict c = Some c"
  by (simp add: evict_def)

lemma evict_full:
  "int (length (lru_l c)) = lru_cap c \<Longrightarrow> lru_l c \<noteq> [] \<Longrightarrow>
   evict c = Some (c\<lparr>lru_l := Remove (lru_l c) (last (lru_l c)),
                      lru_m := (lru_m c)(field_t (Value (last (lru_l c))) := None)\<rparr>)"
  by (cases "lru_l c") (simp_all add: evict_def)

section \<open>Eviction and insertion keep the map and the list consistent\<close>

lemma set_butlast_distinct:
  "distinct xs \<Longrightarrow> xs \<noteq> [] \<Longrightarrow> set (butlast xs) = set xs - {last xs}"
proof -
  assume d: "distinct xs" and ne: "xs \<noteq> []"
  from ne have eq: "butlast xs @ [last xs] = xs" by (rule append_butlast_last_id)
  from d have "distinct (butlast xs @ [last xs])" by (simp only: eq)
  then have n: "last xs \<notin> set (butlast xs)" by simp
  have "set xs = set (butlast xs @ [last xs])" by (simp only: eq)
  then have "set xs = insert (last xs) (set (butlast xs))" by simp
  with n show ?thesis by blast
qed

lemma consistent_drop_last:
  assumes con: "consistent c" and d: "distinct (map addr (lru_l c))" and ne: "lru_l c \<noteq> []"
  shows "consistent (c\<lparr>lru_l := butlast (lru_l c),
                        lru_m := (lru_m c)(field_t (Value (last (lru_l c))) := None)\<rparr>)"
proof -
  let ?f = "\<lambda>e. field_t (Value e)"
  let ?l = "lru_l c"
  have dl: "distinct ?l" using d by (rule distinct_addr_distinct)
  have sb: "set (butlast ?l) = set ?l - {last ?l}" using dl ne by (rule set_butlast_distinct)
  have inj: "inj_on ?f (set ?l)" using con by (rule consistent_inj)
  have lin: "last ?l \<in> set ?l" using ne by simp
  have "?f ` (set ?l - {last ?l}) = ?f ` set ?l - ?f ` {last ?l}"
    using inj lin by (intro inj_on_image_set_diff [of ?f "set ?l"]) auto
  then have img: "?f ` set (butlast ?l) = ?f ` set ?l - {?f (last ?l)}"
    using sb by simp
  have dom: "dom ((lru_m c)(?f (last ?l) := None)) = ?f ` set (butlast ?l)"
    using con img by (simp add: consistent_def)
  have bk: "((lru_m c)(?f (last ?l) := None)) (?f e) = Some e" if e: "e \<in> set (butlast ?l)" for e
  proof -
    from e sb have es: "e \<in> set ?l" and el: "e \<noteq> last ?l" by auto
    from inj es lin el have "?f e \<noteq> ?f (last ?l)" by (auto dest: inj_onD)
    moreover from con es have "lru_m c (?f e) = Some e" by (simp add: consistent_def)
    ultimately show ?thesis by simp
  qed
  from dom bk show ?thesis by (simp add: consistent_def)
qed

lemma evict_total: "cache_inv w \<Longrightarrow> \<exists>c'. evict (wildcardsCache w) = Some c'"
proof -
  assume inv: "cache_inv w"
  show ?thesis
  proof (cases "int (length (lru_l (wildcardsCache w))) = lru_cap (wildcardsCache w)")
    case True
    with inv have "lru_l (wildcardsCache w) \<noteq> []" by (auto simp: cache_inv_def)
    with True show ?thesis by (simp add: evict_full)
  next
    case False
    then show ?thesis by (simp add: evict_below)
  qed
qed

lemma evict_props:
  assumes inv: "cache_inv w" and ev: "evict (wildcardsCache w) = Some c'"
  shows "consistent c'"
    and "distinct (map addr (lru_l c'))"
    and "set (lru_l c') \<subseteq> set (lru_l (wildcardsCache w))"
    and "int (length (lru_l c')) < lru_cap (wildcardsCache w)"
    and "lru_cap c' = lru_cap (wildcardsCache w)"
    and "lru_m c' T = Some e \<Longrightarrow> lru_m (wildcardsCache w) T = Some e"
proof -
  let ?c = "wildcardsCache w"
  from inv have con: "consistent ?c" and d: "distinct (map addr (lru_l ?c))"
    and pos: "0 < lru_cap ?c" and le: "int (length (lru_l ?c)) \<le> lru_cap ?c"
    by (simp_all add: cache_inv_def)
  have "consistent c' \<and> distinct (map addr (lru_l c')) \<and> set (lru_l c') \<subseteq> set (lru_l ?c) \<and>
        int (length (lru_l c')) < lru_cap ?c \<and> lru_cap c' = lru_cap ?c \<and>
        (lru_m c' T = Some e \<longrightarrow> lru_m ?c T = Some e)"
  proof (cases "int (length (lru_l ?c)) = lru_cap ?c")
    case False
    with ev have "c' = ?c" by (simp add: evict_below)
    with con d le False show ?thesis by simp
  next
    case True
    with pos have ne: "lru_l ?c \<noteq> []" by auto
    from True ne ev have c': "c' = ?c\<lparr>lru_l := butlast (lru_l ?c),
         lru_m := (lru_m ?c)(field_t (Value (last (lru_l ?c))) := None)\<rparr>"
      by (simp add: evict_full Remove_Back [OF d ne])
    have 1: "consistent c'" unfolding c' using con d ne by (rule consistent_drop_last)
    have 2: "distinct (map addr (lru_l c'))"
      unfolding c' using d by (simp add: map_butlast distinct_butlast)
    have 3: "set (lru_l c') \<subseteq> set (lru_l ?c)"
      unfolding c' by (auto dest: in_set_butlastD)
    have 4: "int (length (lru_l c')) < lru_cap ?c"
    proof -
      from ne have "0 < length (lru_l ?c)" by simp
      then have "int (length (butlast (lru_l ?c))) < int (length (lru_l ?c))" by simp
      with True show ?thesis unfolding c' by simp
    qed
    have 5: "lru_cap c' = lru_cap ?c" unfolding c' by simp
    have 6: "lru_m c' T = Some e \<longrightarrow> lru_m ?c T = Some e"
      unfolding c' by (simp split: if_splits)
    from 1 2 3 4 5 6 show ?thesis by blast
  qed
  then show "consistent c'"
    and "distinct (map addr (lru_l c'))"
    and "set (lru_l c') \<subseteq> set (lru_l (wildcardsCache w))"
    and "int (length (lru_l c')) < lru_cap (wildcardsCache w)"
    and "lru_cap c' = lru_cap (wildcardsCache w)"
    and "lru_m c' T = Some e \<Longrightarrow> lru_m (wildcardsCache w) T = Some e"
    by blast+
qed

lemma evict_keeps_None:
  "evict c = Some c' \<Longrightarrow> lru_m c T = None \<Longrightarrow> lru_m c' T = None"
  by (auto simp: evict_def split: if_splits option.splits)

lemma consistent_push:
  assumes con: "consistent c" and nk: "lru_m c T = None" and t: "field_t (Value e) = T"
  shows "consistent (c\<lparr>lru_l := e # lru_l c, lru_m := (lru_m c)(T \<mapsto> e)\<rparr>)"
proof -
  have "lru_m c (field_t (Value x)) = Some x \<and> field_t (Value x) \<noteq> T" if "x \<in> set (lru_l c)" for x
    using con nk that by (auto simp: consistent_def)
  then show ?thesis using con t by (auto simp: consistent_def)
qed

section \<open>Every call keeps the invariants\<close>

lemma MoveToFront_props:
  assumes d: "distinct (map addr xs)" and e: "e \<in> set xs"
  shows "set (MoveToFront xs e) = set xs"
    and "length (MoveToFront xs e) = length xs"
    and "distinct (map addr (MoveToFront xs e))"
proof -
  have m: "MoveToFront xs e = e # remove1 e xs" using d e by (rule MoveToFront_member)
  have dx: "distinct xs" using d by (rule distinct_addr_distinct)
  have inj: "inj_on addr (set xs)" using d by (simp add: distinct_map)
  have s: "set (e # remove1 e xs) = set xs" using dx e by (auto simp: set_remove1_eq)
  show "set (MoveToFront xs e) = set xs" using s m by simp
  show "length (MoveToFront xs e) = length xs"
  proof -
    from e have "0 < length xs" by (cases xs) auto
    with e have "Suc (length (remove1 e xs)) = length xs" by (simp add: length_remove1)
    with m show ?thesis by simp
  qed
  have "distinct (e # remove1 e xs)" using dx by (simp add: set_remove1_eq)
  moreover have "inj_on addr (set (e # remove1 e xs))" using inj s by simp
  ultimately have "distinct (map addr (e # remove1 e xs))" by (simp only: distinct_map)
  then show "distinct (map addr (MoveToFront xs e))" using m by simp
qed

lemma Fields_total: "cache_inv w \<Longrightarrow> \<exists>cols w'. Fields iter v w = Some (cols, w')"
proof -
  assume inv: "cache_inv w"
  show ?thesis
  proof (cases "TypeOf v")
    case None
    then show ?thesis by (simp add: Fields_def)
  next
    case (Some T)
    show ?thesis
    proof (cases "lru_m (wildcardsCache w) (target_type T)")
      case None
      from evict_total [OF inv] obtain c' where "evict (wildcardsCache w) = Some c'" by blast
      with Some None show ?thesis by (simp add: Fields_miss)
    next
      case (Some e)
      with \<open>TypeOf v = Some T\<close> show ?thesis by (simp add: Fields_hit)
    qed
  qed
qed

lemma Fields_inv:
  assumes inv: "cache_inv w" and f: "Fields iter v w = Some (cols, w')"
  shows "cache_inv w'" and "lru_cap (wildcardsCache w') = lru_cap (wildcardsCache w)"
proof -
  let ?c = "wildcardsCache w"
  from inv have con: "consistent ?c" and d: "distinct (map addr (lru_l ?c))"
    and fr: "\<forall>e \<in> set (lru_l ?c). addr e < next_addr w"
    and pos: "0 < lru_cap ?c" and le: "int (length (lru_l ?c)) \<le> lru_cap ?c"
    by (simp_all add: cache_inv_def)
  have "cache_inv w' \<and> lru_cap (wildcardsCache w') = lru_cap ?c"
  proof (cases "TypeOf v")
    case None
    with f inv show ?thesis by (simp add: Fields_def)
  next
    case (Some T)
    show ?thesis
    proof (cases "lru_m ?c (target_type T)")
      case (Some e)
      with \<open>TypeOf v = Some T\<close> f
      have w': "w' = w\<lparr>wildcardsCache := ?c\<lparr>lru_l := MoveToFront (lru_l ?c) e\<rparr>\<rparr>"
        by (simp add: Fields_hit)
      from consistent_lookup [OF con Some] have e: "e \<in> set (lru_l ?c)" by simp
      note mp = MoveToFront_props [OF d e]
      have "consistent (?c\<lparr>lru_l := MoveToFront (lru_l ?c) e\<rparr>)"
        using con mp(1) by (simp add: consistent_def)
      with mp d fr pos le show ?thesis unfolding w' by (simp add: cache_inv_def)
    next
      case None
      from evict_total [OF inv] obtain c' where ev: "evict ?c = Some c'" by blast
      let ?e = "\<lparr>addr = next_addr w,
                 Value = \<lparr>field_t = target_type T, field_v = fields_fn (iter (target_type T))\<rparr>\<rparr>"
      from Fields_miss [OF \<open>TypeOf v = Some T\<close> None ev, of iter] f
      have w': "w' = \<lparr>wildcardsCache = c'\<lparr>lru_l := ?e # lru_l c', lru_m := (lru_m c')(target_type T \<mapsto> ?e)\<rparr>,
                      next_addr = Suc (next_addr w)\<rparr>"
        by simp
      note ep = evict_props [OF inv ev]
      have nk: "lru_m c' (target_type T) = None" using ev None by (rule evict_keeps_None)
      have 1: "consistent (c'\<lparr>lru_l := ?e # lru_l c', lru_m := (lru_m c')(target_type T \<mapsto> ?e)\<rparr>)"
        using ep(1) nk by (rule consistent_push) simp
      have fr': "\<forall>x \<in> set (lru_l c'). addr x < next_addr w" using fr ep(3) by blast
      then have 2: "distinct (map addr (?e # lru_l c'))" using ep(2) by auto
      have 3: "\<forall>x \<in> set (?e # lru_l c'). addr x < Suc (next_addr w)" using fr' by auto
      have 4: "int (length (?e # lru_l c')) \<le> lru_cap c'" using ep(4) ep(5) by simp
      from 1 2 3 4 pos ep(5) show ?thesis unfolding w' by (simp add: cache_inv_def)
    qed
  qed
  then show "cache_inv w'" and "lru_cap (wildcardsCache w') = lru_cap (wildcardsCache w)" by simp_all
qed

lemma cached_ok_step:
  assumes inv: "cache_inv w" and ok: "cached_ok conv (wildcardsCache w)"
    and lg: "legit conv iter v" and f: "Fields iter v w = Some (cols, w')"
  shows "cached_ok conv (wildcardsCache w')"
proof (cases "TypeOf v")
  case None
  with f ok show ?thesis by (simp add: Fields_def)
next
  case (Some T)
  let ?c = "wildcardsCache w"
  show ?thesis
  proof (cases "lru_m ?c (target_type T)")
    case (Some e)
    with \<open>TypeOf v = Some T\<close> f
    have "w' = w\<lparr>wildcardsCache := ?c\<lparr>lru_l := MoveToFront (lru_l ?c) e\<rparr>\<rparr>"
      by (simp add: Fields_hit)
    with ok show ?thesis by (simp add: cached_ok_def)
  next
    case None
    from evict_total [OF inv] obtain c' where ev: "evict ?c = Some c'" by blast
    let ?e = "\<lparr>addr = next_addr w,
               Value = \<lparr>field_t = target_type T, field_v = fields_fn (iter (target_type T))\<rparr>\<rparr>"
    from Fields_miss [OF \<open>TypeOf v = Some T\<close> None ev, of iter] f
    have w': "wildcardsCache w' = c'\<lparr>lru_l := ?e # lru_l c', lru_m := (lru_m c')(target_type T \<mapsto> ?e)\<rparr>"
      by auto
    from lg \<open>TypeOf v = Some T\<close>
    have r: "ranges (iter (target_type T)) (GetColumnToFieldIndexMap conv (target_type T))"
      by (simp add: legit_def)
    show ?thesis
      unfolding cached_ok_def
    proof (intro allI impI)
      fix U x es
      assume m: "lru_m (wildcardsCache w') U = Some x"
        and es: "ranges es (GetColumnToFieldIndexMap conv U)"
      show "field_v (Value x) = fields_fn es"
      proof (cases "U = target_type T")
        case True
        with m w' have "field_v (Value x) = fields_fn (iter (target_type T))" by auto
        also have "\<dots> = fields_fn es" using r es unfolding True by (rule fields_fn_ranges)
        finally show ?thesis .
      next
        case False
        with m w' have "lru_m c' U = Some x" by simp
        with evict_props(6) [OF inv ev] have "lru_m ?c U = Some x" by blast
        with ok es show ?thesis unfolding cached_ok_def by blast
      qed
    qed
  qed
qed

lemma cache_inv_init: "cache_inv init"
  by (simp add: cache_inv_def consistent_def init_def)

lemma reachable_inv:
  "reachable conv w \<Longrightarrow>
   cache_inv w \<and> lru_cap (wildcardsCache w) = 1000 \<and> cached_ok conv (wildcardsCache w)"
proof (induction rule: reachable.induct)
  case reachable_init
  show ?case using cache_inv_init by (simp add: init_def cached_ok_def)
next
  case (reachable_Fields w iter v cols w')
  then show ?case
    using Fields_inv [of w iter v cols w'] cached_ok_step [of w conv iter v cols w'] by simp
qed

section \<open>What a call returns in a reachable state\<close>

lemma GetColumnToFieldIndexMap_not_struct:
  "\<not> is_struct T \<Longrightarrow> GetColumnToFieldIndexMap conv T = Map.empty"
  by (cases T) (simp_all add: GetColumnToFieldIndexMap_def)

lemma ranges_backwards:
  "distinct (map fst (discovered conv T)) \<Longrightarrow>
   ranges (backwards conv T) (GetColumnToFieldIndexMap conv T)"
proof -
  assume d: "distinct (map fst (discovered conv T))"
  then have d': "distinct (map fst (rev (discovered conv T)))" by (simp flip: rev_map)
  have "set (rev (discovered conv T)) = set (discovered conv T)" by simp
  with d d' have "map_of (rev (discovered conv T)) = map_of (discovered conv T)"
    by (simp only: map_of_inject_set)
  with d' show ?thesis
    by (simp add: ranges_def backwards_def GetColumnToFieldIndexMap_def)
qed

lemma length_fields_fn: "length (fields_fn es) = length es"
proof -
  have "size (mset (SliceStable column_less (map (\<lambda>(nm, i). \<lparr>indices = i, name = nm\<rparr>) es))) =
        size (mset (map (\<lambda>(nm, i). \<lparr>indices = i, name = nm\<rparr>) es))"
    by (simp only: mset_SliceStable)
  then show ?thesis by (simp add: fields_fn_def)
qed

lemma Fields_result:
  assumes re: "reachable conv w" and lg: "legit conv iter v" and ty: "TypeOf v = Some T"
    and es: "ranges es (GetColumnToFieldIndexMap conv (target_type T))"
  shows "\<exists>w'. Fields iter v w = Some (fields_fn es, w')"
proof -
  from reachable_inv [OF re] have inv: "cache_inv w" and ok: "cached_ok conv (wildcardsCache w)"
    by simp_all
  from lg ty have r: "ranges (iter (target_type T)) (GetColumnToFieldIndexMap conv (target_type T))"
    by (simp add: legit_def)
  show ?thesis
  proof (cases "lru_m (wildcardsCache w) (target_type T)")
    case (Some e)
    with ok es have "field_v (Value e) = fields_fn es" unfolding cached_ok_def by blast
    with Fields_hit [OF ty Some, of iter] show ?thesis by simp
  next
    case None
    from evict_total [OF inv] obtain c' where ev: "evict (wildcardsCache w) = Some c'" by blast
    have "fields_fn (iter (target_type T)) = fields_fn es" using r es by (rule fields_fn_ranges)
    with Fields_miss [OF ty None ev, of iter] show ?thesis by simp
  qed
qed

lemma Fields_cached:
  assumes f: "Fields iter v w = Some (cols, w')" and ty: "TypeOf v = Some T"
  shows "\<exists>e. lru_m (wildcardsCache w') (target_type T) = Some e \<and> field_v (Value e) = cols"
proof (cases "lru_m (wildcardsCache w) (target_type T)")
  case (Some e)
  with Fields_hit [OF ty Some, of iter] f show ?thesis by auto
next
  case None
  with f ty obtain c' where ev: "evict (wildcardsCache w) = Some c'"
    by (auto simp: Fields_def Let_def split: option.splits)
  from Fields_miss [OF ty None ev, of iter] f show ?thesis by auto
qed

lemma legit_user_backwards: "legit (\<lambda>s. s) (backwards (\<lambda>s. s)) (Val user_type)"
proof -
  have "distinct (map fst (discovered (\<lambda>s. s) user_type))" by (simp add: user_type_def)
  then have "ranges (backwards (\<lambda>s. s) user_type) (GetColumnToFieldIndexMap (\<lambda>s. s) user_type)"
    by (rule ranges_backwards)
  then show ?thesis by (simp add: legit_def user_type_def)
qed

lemma legit_user_forwards: "legit (\<lambda>s. s) (discovered (\<lambda>s. s)) (Val user_type)"
proof -
  have "distinct (map fst (discovered (\<lambda>s. s) user_type))" by (simp add: user_type_def)
  then have "ranges (discovered (\<lambda>s. s) user_type) (GetColumnToFieldIndexMap (\<lambda>s. s) user_type)"
    by (rule ranges_discovered)
  then show ?thesis by (simp add: legit_def user_type_def)
qed

lemma Fields_user_init:
  "Fields (backwards (\<lambda>s. s)) (Val user_type) init =
     Some ([''id'', ''name'', ''address.city'', ''address.zip''],
           \<lparr>wildcardsCache = \<lparr>lru_cap = 1000, lru_m = [user_type \<mapsto> user_elem], lru_l = [user_elem]\<rparr>,
            next_addr = 1\<rparr>)"
  by (simp add: run_defs backwards_def user_type_def user_elem_def)

section \<open>The cache invariant, totality and unsupported input\<close>

lemma reachable_user: 
  "reachable (\<lambda>s. s)
     \<lparr>wildcardsCache = \<lparr>lru_cap = 1000, lru_m = [user_type \<mapsto> user_elem], lru_l = [user_elem]\<rparr>,
      next_addr = 1\<rparr>"
  using reachable_init legit_user_backwards Fields_user_init by (rule reachable_Fields)

text \<open>
  C4. In every state that calls of \<^verbatim>\<open>Fields\<close> reach from the initial state of the package,
  every key of the map is mapped to an element that is in the list and stores that key,
  every element of the list is the element its stored type is mapped to, the capacity is
  1000, and neither the list nor the map holds more than 1000 entries.
\<close>

theorem cache_consistent_and_bounded:
  "reachable conv w \<Longrightarrow>
   (\<forall>T e. lru_m (wildcardsCache w) T = Some e \<longrightarrow>
      e \<in> set (lru_l (wildcardsCache w)) \<and> field_t (Value e) = T) \<and>
   (\<forall>e \<in> set (lru_l (wildcardsCache w)). lru_m (wildcardsCache w) (field_t (Value e)) = Some e) \<and>
   lru_cap (wildcardsCache w) = 1000 \<and>
   length (lru_l (wildcardsCache w)) \<le> 1000 \<and>
   finite (dom (lru_m (wildcardsCache w))) \<and>
   card (dom (lru_m (wildcardsCache w))) \<le> 1000"
proof -
  assume re: "reachable conv w"
  let ?c = "wildcardsCache w"
  from reachable_inv [OF re] have inv: "cache_inv w" and cap: "lru_cap ?c = 1000" by simp_all
  from inv have con: "consistent ?c" and le: "int (length (lru_l ?c)) \<le> lru_cap ?c"
    by (simp_all add: cache_inv_def)
  have 1: "\<forall>T e. lru_m ?c T = Some e \<longrightarrow> e \<in> set (lru_l ?c) \<and> field_t (Value e) = T"
    using consistent_lookup [OF con] by blast
  have 2: "\<forall>e \<in> set (lru_l ?c). lru_m ?c (field_t (Value e)) = Some e"
    using con by (simp add: consistent_def)
  have 3: "length (lru_l ?c) \<le> 1000" using le cap by simp
  have dm: "dom (lru_m ?c) = (\<lambda>e. field_t (Value e)) ` set (lru_l ?c)"
    using con by (simp add: consistent_def)
  have 4: "finite (dom (lru_m ?c))" unfolding dm by simp
  have "card (dom (lru_m ?c)) \<le> card (set (lru_l ?c))" unfolding dm by (rule card_image_le) simp
  also have "\<dots> \<le> length (lru_l ?c)" by (rule card_length)
  finally have 5: "card (dom (lru_m ?c)) \<le> 1000" using 3 by simp
  from 1 2 cap 3 4 5 show ?thesis by blast
qed

theorem cache_consistent_and_bounded_witness:
  "reachable (\<lambda>s. s)
     \<lparr>wildcardsCache = \<lparr>lru_cap = 1000, lru_m = [user_type \<mapsto> user_elem], lru_l = [user_elem]\<rparr>,
      next_addr = 1\<rparr> \<and>
   [user_type \<mapsto> user_elem] user_type = Some user_elem \<and>
   user_elem \<in> set [user_elem] \<and> field_t (Value user_elem) = user_type \<and>
   [user_type \<mapsto> user_elem] (field_t (Value user_elem)) = Some user_elem \<and>
   length [user_elem] \<le> 1000 \<and>
   finite (dom [user_type \<mapsto> user_elem]) \<and> card (dom [user_type \<mapsto> user_elem]) \<le> 1000"
  using cache_consistent_and_bounded [OF reachable_user] reachable_user by simp

text \<open>
  C8. In every reachable state, for every argument and every order of the \<^verbatim>\<open>range\<close>
  statement, \<^verbatim>\<open>Fields\<close> returns a list and \<^verbatim>\<open>Wildcard\<close> returns a string: neither the
  eviction nor \<^verbatim>\<open>Builder.Grow\<close> panics. The formatter returns a string for every list of
  names, a zero-length name included.
\<close>

theorem core_never_panics:
  "reachable conv w \<Longrightarrow>
   (\<exists>cols s w'. Fields iter v w = Some (cols, w') \<and> Wildcard iter v w = Some (s, w')) \<and>
   (\<exists>s. format_elems elems = Some s)"
proof -
  assume re: "reachable conv w"
  from reachable_inv [OF re] have inv: "cache_inv w" by simp
  have fe: "\<exists>s. format_elems xs = Some s" for xs
    by (cases "xs = []") (simp_all add: format_elems_Nil format_elems_spec)
  from Fields_total [OF inv] obtain cols w' where f: "Fields iter v w = Some (cols, w')" by blast
  from fe obtain s where "format_elems cols = Some s" by blast
  with f have "Wildcard iter v w = Some (s, w')" by (simp add: Wildcard_def)
  with f fe show ?thesis by blast
qed

theorem core_never_panics_witness:
  "reachable (\<lambda>s. s) init \<and>
   (\<exists>w'. Wildcard (discovered (\<lambda>s. s)) (Val empty_name_type) init = Some ([CHR 0x22, CHR 0x22], w')) \<and>
   format_elems [''''] = Some [CHR 0x22, CHR 0x22]"
proof -
  have r: "reachable (\<lambda>s. s) init" by (rule reachable_init)
  from core_never_panics [OF r, of "discovered (\<lambda>s. s)" "Val empty_name_type" "['''']"]
  obtain cols s w' where f: "Fields (discovered (\<lambda>s. s)) (Val empty_name_type) init = Some (cols, w')"
    and w: "Wildcard (discovered (\<lambda>s. s)) (Val empty_name_type) init = Some (s, w')"
    by blast
  have "cols = ['''']" using f by (auto simp: run_defs empty_name_type_def)
  with f w have "s = [CHR 0x22, CHR 0x22]"
    by (simp add: Wildcard_def format_elems_def grow_size_def contains_dot_def)
  with w r show ?thesis by (simp add: format_elems_def grow_size_def contains_dot_def)
qed

text \<open>
  C5. For the nil interface \<^verbatim>\<open>Fields\<close> returns the empty list and \<^verbatim>\<open>Wildcard\<close> the empty
  string, and the cache is not touched. For a value whose type, after one pointer is
  taken off, is not a struct, both return the same in every reachable state. Neither
  panics.
\<close>

theorem unsupported_input_empty:
  "(Fields iter Nil w0 = Some ([], w0) \<and> Wildcard iter Nil w0 = Some ('''', w0)) \<and>
   (reachable conv w \<longrightarrow> legit conv iter v \<longrightarrow> TypeOf v = Some T \<longrightarrow> \<not> is_struct (target_type T) \<longrightarrow>
      (\<exists>w'. Fields iter v w = Some ([], w') \<and> Wildcard iter v w = Some ('''', w')))"
proof (intro conjI impI)
  show "Fields iter Nil w0 = Some ([], w0)" by (rule Fields_Nil)
  show "Wildcard iter Nil w0 = Some ('''', w0)"
    by (simp add: Wildcard_def Fields_Nil format_elems_Nil)
next
  assume re: "reachable conv w" and lg: "legit conv iter v" and ty: "TypeOf v = Some T"
    and ns: "\<not> is_struct (target_type T)"
  have "ranges [] (GetColumnToFieldIndexMap conv (target_type T))"
    using GetColumnToFieldIndexMap_not_struct [OF ns] by (simp add: ranges_def)
  from Fields_result [OF re lg ty this] obtain w' where f: "Fields iter v w = Some ([], w')"
    by (auto simp: fields_fn_Nil)
  then have "Wildcard iter v w = Some ('''', w')" by (simp add: Wildcard_def format_elems_Nil)
  with f show "\<exists>w'. Fields iter v w = Some ([], w') \<and> Wildcard iter v w = Some ('''', w')" by blast
qed

theorem unsupported_input_empty_witness:
  "reachable (\<lambda>s. s) init \<and> legit (\<lambda>s. s) (discovered (\<lambda>s. s)) (Val (Ptr (Ptr user_type))) \<and>
   TypeOf (Val (Ptr (Ptr user_type))) = Some (Ptr (Ptr user_type)) \<and>
   \<not> is_struct (target_type (Ptr (Ptr user_type))) \<and>
   (\<exists>w'. Fields (discovered (\<lambda>s. s)) (Val (Ptr (Ptr user_type))) init = Some ([], w') \<and>
         Wildcard (discovered (\<lambda>s. s)) (Val (Ptr (Ptr user_type))) init = Some ('''', w'))"
proof -
  have r: "reachable (\<lambda>s. s) init" by (rule reachable_init)
  have l: "legit (\<lambda>s. s) (discovered (\<lambda>s. s)) (Val (Ptr (Ptr user_type)))"
    by (simp add: legit_def ranges_def GetColumnToFieldIndexMap_def)
  have t: "TypeOf (Val (Ptr (Ptr user_type))) = Some (Ptr (Ptr user_type))" by simp
  have n: "\<not> is_struct (target_type (Ptr (Ptr user_type)))" by simp
  from unsupported_input_empty [of "discovered (\<lambda>s. s)" init "\<lambda>s. s" init "Val (Ptr (Ptr user_type))" "Ptr (Ptr user_type)"]
    r l t n
  show ?thesis by blast
qed

section \<open>Determinism, typed nil pointers and declaration order\<close>

lemma Fields_user_hit:
  "Fields (discovered (\<lambda>s. s)) (Val user_type)
     \<lparr>wildcardsCache = \<lparr>lru_cap = 1000, lru_m = [user_type \<mapsto> user_elem], lru_l = [user_elem]\<rparr>,
      next_addr = 1\<rparr> =
   Some ([''id'', ''name'', ''address.city'', ''address.zip''],
     \<lparr>wildcardsCache = \<lparr>lru_cap = 1000, lru_m = [user_type \<mapsto> user_elem], lru_l = [user_elem]\<rparr>,
      next_addr = 1\<rparr>)"
  by (simp add: run_defs user_type_def user_elem_def)

text \<open>
  C7. Two calls of \<^verbatim>\<open>Fields\<close> with the same argument, in any two reachable states and
  with any two orders of the \<^verbatim>\<open>range\<close> statement, return the same list, element for
  element; and after a call the type of its argument is cached with the list the call
  returned, so that a call right after a cold run is a hit and returns that list.
\<close>

theorem resolution_deterministic:
  "reachable conv w1 \<Longrightarrow> reachable conv w2 \<Longrightarrow> legit conv iter1 v \<Longrightarrow> legit conv iter2 v \<Longrightarrow>
   Fields iter1 v w1 = Some (cols1, w1') \<Longrightarrow> Fields iter2 v w2 = Some (cols2, w2') \<Longrightarrow>
   cols1 = cols2 \<and>
   (\<forall>T. TypeOf v = Some T \<longrightarrow>
      (\<exists>e. lru_m (wildcardsCache w1') (target_type T) = Some e \<and> field_v (Value e) = cols1))"
proof -
  assume r1: "reachable conv w1" and r2: "reachable conv w2"
    and l1: "legit conv iter1 v" and l2: "legit conv iter2 v"
    and f1: "Fields iter1 v w1 = Some (cols1, w1')" and f2: "Fields iter2 v w2 = Some (cols2, w2')"
  have eq: "cols1 = cols2"
  proof (cases "TypeOf v")
    case None
    with f1 f2 show ?thesis by (simp add: Fields_def)
  next
    case (Some T)
    with l1 have es: "ranges (iter1 (target_type T)) (GetColumnToFieldIndexMap conv (target_type T))"
      by (simp add: legit_def)
    from Fields_result [OF r1 l1 Some es] f1 have "cols1 = fields_fn (iter1 (target_type T))" by auto
    moreover
    from Fields_result [OF r2 l2 Some es] f2 have "cols2 = fields_fn (iter1 (target_type T))" by auto
    ultimately show ?thesis by simp
  qed
  have "\<forall>T. TypeOf v = Some T \<longrightarrow>
      (\<exists>e. lru_m (wildcardsCache w1') (target_type T) = Some e \<and> field_v (Value e) = cols1)"
    using Fields_cached [OF f1] by blast
  with eq show ?thesis by blast
qed

theorem resolution_deterministic_witness:
  "reachable (\<lambda>s. s) init \<and>
   reachable (\<lambda>s. s)
     \<lparr>wildcardsCache = \<lparr>lru_cap = 1000, lru_m = [user_type \<mapsto> user_elem], lru_l = [user_elem]\<rparr>,
      next_addr = 1\<rparr> \<and>
   legit (\<lambda>s. s) (backwards (\<lambda>s. s)) (Val user_type) \<and>
   legit (\<lambda>s. s) (discovered (\<lambda>s. s)) (Val user_type) \<and>
   map_option fst (Fields (backwards (\<lambda>s. s)) (Val user_type) init) =
     Some [''id'', ''name'', ''address.city'', ''address.zip''] \<and>
   map_option fst (Fields (discovered (\<lambda>s. s)) (Val user_type)
     \<lparr>wildcardsCache = \<lparr>lru_cap = 1000, lru_m = [user_type \<mapsto> user_elem], lru_l = [user_elem]\<rparr>,
      next_addr = 1\<rparr>) = Some [''id'', ''name'', ''address.city'', ''address.zip''] \<and>
   [''id'', ''name'', ''address.city'', ''address.zip''] = [''id'', ''name'', ''address.city'', ''address.zip'']"
  using resolution_deterministic [OF reachable_init reachable_user legit_user_backwards
      legit_user_forwards Fields_user_init Fields_user_hit]
    reachable_init reachable_user legit_user_backwards legit_user_forwards
    Fields_user_init Fields_user_hit
  by simp

text \<open>
  C9. For a nil pointer whose static type is pointer to a struct type, \<^verbatim>\<open>Fields\<close> does
  what it does for a value of the struct type itself and for a non-nil pointer to it: in
  every reachable state it returns the list \<^verbatim>\<open>fields\<close> computes from the column map of
  the struct type, which is not empty when that map is not empty.
\<close>

theorem typed_nil_pointer_resolves:
  "reachable conv w \<Longrightarrow> legit conv iter (TypedNilPtr (Struct sn fs)) \<Longrightarrow>
   ranges es (GetColumnToFieldIndexMap conv (Struct sn fs)) \<Longrightarrow>
   (\<exists>w'. Fields iter (TypedNilPtr (Struct sn fs)) w = Some (fields_fn es, w')) \<and>
   Fields iter (TypedNilPtr (Struct sn fs)) w = Fields iter (Val (Struct sn fs)) w \<and>
   Fields iter (TypedNilPtr (Struct sn fs)) w = Fields iter (Val (Ptr (Struct sn fs))) w \<and>
   length (fields_fn es) = length es \<and>
   (es \<noteq> [] \<longrightarrow> fields_fn es \<noteq> [])"
proof -
  assume re: "reachable conv w" and lg: "legit conv iter (TypedNilPtr (Struct sn fs))"
    and es: "ranges es (GetColumnToFieldIndexMap conv (Struct sn fs))"
  have ty: "TypeOf (TypedNilPtr (Struct sn fs)) = Some (Ptr (Struct sn fs))" by simp
  from es have es': "ranges es (GetColumnToFieldIndexMap conv (target_type (Ptr (Struct sn fs))))"
    by simp
  have 1: "\<exists>w'. Fields iter (TypedNilPtr (Struct sn fs)) w = Some (fields_fn es, w')"
    using re lg ty es' by (rule Fields_result)
  have 2: "Fields iter (TypedNilPtr (Struct sn fs)) w = Fields iter (Val (Struct sn fs)) w"
    by (simp add: Fields_def)
  have 3: "Fields iter (TypedNilPtr (Struct sn fs)) w = Fields iter (Val (Ptr (Struct sn fs))) w"
    by (simp add: Fields_def)
  have 4: "length (fields_fn es) = length es" by (rule length_fields_fn)
  then have 5: "es \<noteq> [] \<longrightarrow> fields_fn es \<noteq> []" by auto
  from 1 2 3 4 5 show ?thesis by blast
qed

theorem typed_nil_pointer_resolves_witness:
  "reachable (\<lambda>s. s) init \<and> legit (\<lambda>s. s) (backwards (\<lambda>s. s)) (TypedNilPtr user_type) \<and>
   ranges (discovered (\<lambda>s. s) user_type) (GetColumnToFieldIndexMap (\<lambda>s. s) user_type) \<and>
   (\<exists>w'. Fields (backwards (\<lambda>s. s)) (TypedNilPtr user_type) init =
      Some ([''id'', ''name'', ''address.city'', ''address.zip''], w'))"
proof -
  have d: "distinct (map fst (discovered (\<lambda>s. s) user_type))" by (simp add: user_type_def)
  have l: "legit (\<lambda>s. s) (backwards (\<lambda>s. s)) (TypedNilPtr user_type)"
    using ranges_backwards [OF d] by (simp add: legit_def)
  have r: "ranges (discovered (\<lambda>s. s) user_type) (GetColumnToFieldIndexMap (\<lambda>s. s) user_type)"
    using d by (rule ranges_discovered)
  have f: "fields_fn (discovered (\<lambda>s. s) user_type) = [''id'', ''name'', ''address.city'', ''address.zip'']"
    by (simp add: run_defs user_type_def)
  obtain sn fs where u: "user_type = Struct sn fs" by (simp add: user_type_def)
  from typed_nil_pointer_resolves [OF reachable_init l [unfolded u] r [unfolded u]]
  have "\<exists>w'. Fields (backwards (\<lambda>s. s)) (TypedNilPtr (Struct sn fs)) init =
      Some (fields_fn (discovered (\<lambda>s. s) (Struct sn fs)), w')"
    by blast
  then have "\<exists>w'. Fields (backwards (\<lambda>s. s)) (TypedNilPtr user_type) init =
      Some (fields_fn (discovered (\<lambda>s. s) user_type), w')"
    by (simp only: u)
  with reachable_init l r f show ?thesis by simp
qed

lemma fields_fn_map_entries:
  assumes r: "ranges es (GetColumnToFieldIndexMap conv T)"
  shows "fields_fn es =
         map fst (filter (\<lambda>(k, p). GetColumnToFieldIndexMap conv T k = Some p) (discovered conv T))"
proof -
  let ?D = "discovered conv T"
  let ?M = "GetColumnToFieldIndexMap conv T"
  let ?D' = "filter (\<lambda>(k, p). ?M k = Some p) ?D"
  have "sorted_wrt (\<lambda>x y. less_fn (snd x) (snd y)) ?D"
    using discovered_sorted [of conv T] by (simp add: sorted_wrt_map)
  then have "sorted_wrt (\<lambda>x y. less_fn (snd x) (snd y)) ?D'" by (rule sorted_wrt_filter)
  then have srt: "sorted_wrt less_fn (map snd ?D')" by (simp add: sorted_wrt_map)
  have "set ?D' = {(k, p). ?M k = Some p}"
    by (auto simp: GetColumnToFieldIndexMap_def dest: map_of_SomeD)
  then have se: "set es = set ?D'" using ranges_set [OF r] by simp
  have "distinct ?D" using discovered_distinct_paths [of conv T] by (simp add: distinct_map)
  then have "distinct ?D'" by simp
  with ranges_distinct [OF r] se have "mset es = mset ?D'"
    using set_eq_iff_mset_eq_distinct [of es ?D'] by simp
  then have "fields_fn es = fields_fn ?D'"
    using ranges_distinct_paths [OF r] by (rule fields_fn_mset)
  also have "\<dots> = map fst ?D'" using srt by (rule fields_fn_sorted)
  finally show ?thesis .
qed

text \<open>
  C3. For a value of a struct type, or a pointer to one, \<^verbatim>\<open>Fields\<close> returns in every
  reachable state the names of the entries of the column map in the order in which the
  walk over the declared fields discovers them (a nested composite in the place of its
  field, its sub-fields in their order), whatever the order in which the \<^verbatim>\<open>range\<close>
  statement delivers the entries. When the column names are pairwise different, that is
  the list of all discovered columns.
\<close>

theorem declaration_order:
  "reachable conv w \<Longrightarrow> legit conv iter v \<Longrightarrow> TypeOf v = Some T \<Longrightarrow>
   target_type T = Struct sn fs \<Longrightarrow>
   (\<exists>w'. Fields iter v w =
      Some (map fst (filter (\<lambda>(k, p). GetColumnToFieldIndexMap conv (Struct sn fs) k = Some p)
                       (walk_fields conv [] [] 0 fs)), w')) \<and>
   (distinct (map fst (walk_fields conv [] [] 0 fs)) \<longrightarrow>
      (\<exists>w'. Fields iter v w = Some (map fst (walk_fields conv [] [] 0 fs), w')))"
proof -
  assume re: "reachable conv w" and lg: "legit conv iter v" and ty: "TypeOf v = Some T"
    and st: "target_type T = Struct sn fs"
  from lg ty have r: "ranges (iter (target_type T)) (GetColumnToFieldIndexMap conv (target_type T))"
    by (simp add: legit_def)
  from Fields_result [OF re lg ty r] obtain w' where
    f: "Fields iter v w = Some (fields_fn (iter (target_type T)), w')" by blast
  have 1: "fields_fn (iter (target_type T)) =
      map fst (filter (\<lambda>(k, p). GetColumnToFieldIndexMap conv (Struct sn fs) k = Some p)
                 (walk_fields conv [] [] 0 fs))"
    using fields_fn_map_entries [OF r] st by simp
  have 2: "fields_fn (iter (target_type T)) = map fst (walk_fields conv [] [] 0 fs)"
    if d: "distinct (map fst (walk_fields conv [] [] 0 fs))"
  proof -
    from d st have "distinct (map fst (discovered conv (target_type T)))" by simp
    with r have "fields_fn (iter (target_type T)) = map fst (discovered conv (target_type T))"
      by (rule fields_fn_discovered)
    with st show ?thesis by simp
  qed
  from f 1 2 show ?thesis by auto
qed

theorem declaration_order_witness:
  "reachable (\<lambda>s. s) init \<and> legit (\<lambda>s. s) (backwards (\<lambda>s. s)) (Val abc_type) \<and>
   backwards (\<lambda>s. s) abc_type = [(''C.E'', [2, 1]), (''C.D'', [2, 0]), (''B'', [1]), (''A'', [0])] \<and>
   (\<exists>w'. Fields (backwards (\<lambda>s. s)) (Val abc_type) init = Some ([''A'', ''B'', ''C.D'', ''C.E''], w')) \<and>
   map_option fst (Fields (backwards (\<lambda>s. s)) (Val user_type) init) =
     Some [''id'', ''name'', ''address.city'', ''address.zip'']"
proof -
  have d: "distinct (map fst (discovered (\<lambda>s. s) abc_type))" by (simp add: abc_type_def)
  have l: "legit (\<lambda>s. s) (backwards (\<lambda>s. s)) (Val abc_type)"
    using ranges_backwards [OF d] by (simp add: legit_def abc_type_def)
  have b: "backwards (\<lambda>s. s) abc_type = [(''C.E'', [2, 1]), (''C.D'', [2, 0]), (''B'', [1]), (''A'', [0])]"
    by (simp add: backwards_def abc_type_def)
  have t: "TypeOf (Val abc_type) = Some abc_type" by simp
  obtain sn fs where u: "abc_type = Struct sn fs" by (simp add: abc_type_def)
  have tt: "target_type abc_type = Struct sn fs" unfolding u by simp
  have w: "walk_fields (\<lambda>s. s) [] [] 0 fs = discovered (\<lambda>s. s) abc_type" by (simp add: u)
  from d have "distinct (map fst (walk_fields (\<lambda>s. s) [] [] 0 fs))" by (simp only: w)
  with declaration_order [OF reachable_init l t tt]
  have "\<exists>w'. Fields (backwards (\<lambda>s. s)) (Val abc_type) init =
      Some (map fst (discovered (\<lambda>s. s) abc_type), w')"
    by (simp only: w)
  moreover have "map fst (discovered (\<lambda>s. s) abc_type) = [''A'', ''B'', ''C.D'', ''C.E'']"
    by (simp add: abc_type_def)
  ultimately
  have "\<exists>w'. Fields (backwards (\<lambda>s. s)) (Val abc_type) init = Some ([''A'', ''B'', ''C.D'', ''C.E''], w')"
    by simp
  with reachable_init l b Fields_user_init show ?thesis by simp
qed

section \<open>Eviction at capacity and promotion on a hit\<close>

lemma Fields_miss_full:
  assumes inv: "cache_inv w" and ty: "TypeOf v = Some T"
    and miss: "lru_m (wildcardsCache w) (target_type T) = None"
    and full: "int (length (lru_l (wildcardsCache w))) = lru_cap (wildcardsCache w)"
  shows "Fields iter v w =
     Some (fields_fn (iter (target_type T)),
       \<lparr>wildcardsCache = (wildcardsCache w)
          \<lparr>lru_l := \<lparr>addr = next_addr w,
                      Value = \<lparr>field_t = target_type T, field_v = fields_fn (iter (target_type T))\<rparr>\<rparr>
                    # butlast (lru_l (wildcardsCache w)),
           lru_m := ((lru_m (wildcardsCache w))
                       (field_t (Value (last (lru_l (wildcardsCache w)))) := None))
                    (target_type T \<mapsto>
                       \<lparr>addr = next_addr w,
                        Value = \<lparr>field_t = target_type T, field_v = fields_fn (iter (target_type T))\<rparr>\<rparr>)\<rparr>,
        next_addr = Suc (next_addr w)\<rparr>)"
proof -
  let ?c = "wildcardsCache w"
  from inv have d: "distinct (map addr (lru_l ?c))" and pos: "0 < lru_cap ?c"
    by (simp_all add: cache_inv_def)
  from full pos have ne: "lru_l ?c \<noteq> []" by auto
  have ev: "evict ?c = Some (?c\<lparr>lru_l := butlast (lru_l ?c),
         lru_m := (lru_m ?c)(field_t (Value (last (lru_l ?c))) := None)\<rparr>)"
    using full ne by (simp add: evict_full Remove_Back [OF d ne])
  show ?thesis using Fields_miss [OF ty miss ev, of iter] by simp
qed

lemma Fields_hit_front:
  assumes inv: "cache_inv w" and ty: "TypeOf v = Some T"
    and hit: "lru_m (wildcardsCache w) (target_type T) = Some e"
  shows "Fields iter v w =
     Some (field_v (Value e),
           w\<lparr>wildcardsCache := (wildcardsCache w)\<lparr>lru_l := e # remove1 e (lru_l (wildcardsCache w))\<rparr>\<rparr>)"
proof -
  let ?c = "wildcardsCache w"
  from inv have con: "consistent ?c" and d: "distinct (map addr (lru_l ?c))"
    by (simp_all add: cache_inv_def)
  from consistent_lookup [OF con hit] have "e \<in> set (lru_l ?c)" by simp
  with d have "MoveToFront (lru_l ?c) e = e # remove1 e (lru_l ?c)" by (rule MoveToFront_member)
  with Fields_hit [OF ty hit, of iter] show ?thesis by simp
qed

lemma hit_then_miss_keeps:
  assumes inv: "cache_inv w" and ty: "TypeOf v = Some T"
    and hit: "lru_m (wildcardsCache w) (target_type T) = Some e"
    and cap: "2 \<le> lru_cap (wildcardsCache w)"
    and f1: "Fields iter v w = Some (cols, w1)"
    and ty2: "TypeOf v2 = Some T2"
    and miss: "lru_m (wildcardsCache w) (target_type T2) = None"
    and f2: "Fields iter2 v2 w1 = Some (cols2, w2)"
  shows "lru_m (wildcardsCache w2) (target_type T) = Some e \<and> e \<in> set (lru_l (wildcardsCache w2))"
proof -
  let ?c = "wildcardsCache w"
  let ?l1 = "e # remove1 e (lru_l ?c)"
  from inv have con: "consistent ?c" and d: "distinct (map addr (lru_l ?c))"
    by (simp_all add: cache_inv_def)
  from consistent_lookup [OF con hit] have el: "e \<in> set (lru_l ?c)" and te: "field_t (Value e) = target_type T"
    by simp_all
  from Fields_hit_front [OF inv ty hit, of iter] f1
  have w1: "w1 = w\<lparr>wildcardsCache := ?c\<lparr>lru_l := ?l1\<rparr>\<rparr>" by simp
  have inv1: "cache_inv w1" using inv f1 by (rule Fields_inv)
  have m1: "lru_m (wildcardsCache w1) = lru_m ?c" unfolding w1 by simp
  have l1: "lru_l (wildcardsCache w1) = ?l1" unfolding w1 by simp
  have c1: "lru_cap (wildcardsCache w1) = lru_cap ?c" unfolding w1 by simp
  have miss1: "lru_m (wildcardsCache w1) (target_type T2) = None" using miss m1 by simp
  have ne: "target_type T \<noteq> target_type T2" using hit miss by auto
  have keep: "lru_m (wildcardsCache w2) (target_type T) = Some e"
  proof (cases "int (length (lru_l (wildcardsCache w1))) = lru_cap (wildcardsCache w1)")
    case False
    then have "evict (wildcardsCache w1) = Some (wildcardsCache w1)" by (rule evict_below)
    from Fields_miss [OF ty2 miss1 this, of iter2] f2 ne hit m1 show ?thesis by auto
  next
    case True
    with c1 l1 cap have len: "2 \<le> length ?l1" by simp
    then have rne: "remove1 e (lru_l ?c) \<noteq> []" by auto
    then have la: "last ?l1 = last (remove1 e (lru_l ?c))" by simp
    have dl: "distinct (lru_l ?c)" using d by (rule distinct_addr_distinct)
    from rne have "last (remove1 e (lru_l ?c)) \<in> set (remove1 e (lru_l ?c))" by (rule last_in_set)
    with dl have lin: "last ?l1 \<in> set (lru_l ?c)" and lne: "last ?l1 \<noteq> e"
      unfolding la by (simp_all add: set_remove1_eq)
    from consistent_inj [OF con] lin el lne
    have "field_t (Value (last ?l1)) \<noteq> field_t (Value e)" by (auto dest: inj_onD)
    with te have tl: "field_t (Value (last ?l1)) \<noteq> target_type T" by simp
    from Fields_miss_full [OF inv1 ty2 miss1 True, of iter2] f2
    have "lru_m (wildcardsCache w2) (target_type T) =
          ((lru_m ?c)(field_t (Value (last ?l1)) := None)) (target_type T)"
      using ne m1 l1 by auto
    with tl hit show ?thesis by simp
  qed
  have "cache_inv w2" using inv1 f2 by (rule Fields_inv)
  then have "consistent (wildcardsCache w2)" by (simp add: cache_inv_def)
  from consistent_lookup [OF this keep] keep show ?thesis by simp
qed

section \<open>Eviction and promotion in one statement\<close>

lemma cache_inv_full_cache: "cache_inv full_cache"
  by (simp add: cache_inv_def consistent_def full_cache_def int_elem_def user_elem_def user_type_def)

text \<open>
  C2. In a state that satisfies the cache invariant, a call of \<^verbatim>\<open>Fields\<close> for a type that
  is not cached, with the list as long as the capacity, removes the back element from
  the list and its type from the map, puts the new element at the front and maps the
  new type to it, and returns what \<^verbatim>\<open>fields\<close> computes. A call for a cached type returns
  the cached list (the \<^verbatim>\<open>range\<close> order plays no part) and moves its element to the front,
  the map unchanged. With a capacity of at least two, an entry that was hit is still
  in the map and in the list after the next call that inserts a new type.
\<close>

theorem lru_eviction_and_promotion:
  "cache_inv w \<Longrightarrow> TypeOf v = Some T \<Longrightarrow>
   (lru_m (wildcardsCache w) (target_type T) = None \<longrightarrow>
    int (length (lru_l (wildcardsCache w))) = lru_cap (wildcardsCache w) \<longrightarrow>
      Fields iter v w =
        Some (fields_fn (iter (target_type T)),
          \<lparr>wildcardsCache = (wildcardsCache w)
             \<lparr>lru_l := \<lparr>addr = next_addr w,
                         Value = \<lparr>field_t = target_type T, field_v = fields_fn (iter (target_type T))\<rparr>\<rparr>
                       # butlast (lru_l (wildcardsCache w)),
              lru_m := ((lru_m (wildcardsCache w))
                          (field_t (Value (last (lru_l (wildcardsCache w)))) := None))
                       (target_type T \<mapsto>
                          \<lparr>addr = next_addr w,
                           Value = \<lparr>field_t = target_type T, field_v = fields_fn (iter (target_type T))\<rparr>\<rparr>)\<rparr>,
           next_addr = Suc (next_addr w)\<rparr>)) \<and>
   (\<forall>e. lru_m (wildcardsCache w) (target_type T) = Some e \<longrightarrow>
      Fields iter v w =
        Some (field_v (Value e),
              w\<lparr>wildcardsCache := (wildcardsCache w)\<lparr>lru_l := e # remove1 e (lru_l (wildcardsCache w))\<rparr>\<rparr>) \<and>
      (\<forall>cols w1 iter2 v2 T2 cols2 w2.
         2 \<le> lru_cap (wildcardsCache w) \<longrightarrow> Fields iter v w = Some (cols, w1) \<longrightarrow>
         TypeOf v2 = Some T2 \<longrightarrow> lru_m (wildcardsCache w) (target_type T2) = None \<longrightarrow>
         Fields iter2 v2 w1 = Some (cols2, w2) \<longrightarrow>
           lru_m (wildcardsCache w2) (target_type T) = Some e \<and> e \<in> set (lru_l (wildcardsCache w2))))"
proof (intro conjI impI allI)
  assume "cache_inv w" "TypeOf v = Some T" "lru_m (wildcardsCache w) (target_type T) = None"
    "int (length (lru_l (wildcardsCache w))) = lru_cap (wildcardsCache w)"
  then show "Fields iter v w =
        Some (fields_fn (iter (target_type T)),
          \<lparr>wildcardsCache = (wildcardsCache w)
             \<lparr>lru_l := \<lparr>addr = next_addr w,
                         Value = \<lparr>field_t = target_type T, field_v = fields_fn (iter (target_type T))\<rparr>\<rparr>
                       # butlast (lru_l (wildcardsCache w)),
              lru_m := ((lru_m (wildcardsCache w))
                          (field_t (Value (last (lru_l (wildcardsCache w)))) := None))
                       (target_type T \<mapsto>
                          \<lparr>addr = next_addr w,
                           Value = \<lparr>field_t = target_type T, field_v = fields_fn (iter (target_type T))\<rparr>\<rparr>)\<rparr>,
           next_addr = Suc (next_addr w)\<rparr>)"
    by (rule Fields_miss_full)
next
  fix e
  assume "cache_inv w" "TypeOf v = Some T" "lru_m (wildcardsCache w) (target_type T) = Some e"
  then show "Fields iter v w =
        Some (field_v (Value e),
              w\<lparr>wildcardsCache := (wildcardsCache w)\<lparr>lru_l := e # remove1 e (lru_l (wildcardsCache w))\<rparr>\<rparr>)"
    by (rule Fields_hit_front)
next
  fix e cols w1 iter2 v2 T2 cols2 w2
  assume a: "cache_inv w" "TypeOf v = Some T" "lru_m (wildcardsCache w) (target_type T) = Some e"
    "2 \<le> lru_cap (wildcardsCache w)" "Fields iter v w = Some (cols, w1)"
    "TypeOf v2 = Some T2" "lru_m (wildcardsCache w) (target_type T2) = None"
    "Fields iter2 v2 w1 = Some (cols2, w2)"
  from hit_then_miss_keeps [OF a]
  show "lru_m (wildcardsCache w2) (target_type T) = Some e"
    and "e \<in> set (lru_l (wildcardsCache w2))" by simp_all
qed

theorem lru_eviction_and_promotion_witness:
  "cache_inv full_cache \<and> TypeOf (Val abc_type) = Some abc_type \<and>
   lru_m (wildcardsCache full_cache) (target_type abc_type) = None \<and>
   int (length (lru_l (wildcardsCache full_cache))) = lru_cap (wildcardsCache full_cache) \<and>
   lru_l (wildcardsCache full_cache) = [int_elem, user_elem] \<and>
   (\<exists>w'. Fields (backwards (\<lambda>s. s)) (Val abc_type) full_cache = Some ([''A'', ''B'', ''C.D'', ''C.E''], w') \<and>
      lru_l (wildcardsCache w') =
        [\<lparr>addr = 2, Value = \<lparr>field_t = abc_type, field_v = [''A'', ''B'', ''C.D'', ''C.E'']\<rparr>\<rparr>, int_elem] \<and>
      lru_m (wildcardsCache w') user_type = None \<and>
      lru_m (wildcardsCache w') (Basic ''int'') = Some int_elem) \<and>
   lru_m (wildcardsCache full_cache) (target_type user_type) = Some user_elem \<and>
   (\<exists>w1 w2 cols2.
      Fields (\<lambda>T. []) (Val user_type) full_cache =
        Some ([''id'', ''name'', ''address.city'', ''address.zip''], w1) \<and>
      lru_l (wildcardsCache w1) = [user_elem, int_elem] \<and>
      Fields (backwards (\<lambda>s. s)) (Val abc_type) w1 = Some (cols2, w2) \<and>
      lru_m (wildcardsCache w2) user_type = Some user_elem \<and>
      user_elem \<in> set (lru_l (wildcardsCache w2)))"
proof -
  note inv = cache_inv_full_cache
  have ta: "TypeOf (Val abc_type) = Some abc_type" by simp
  have tu: "TypeOf (Val user_type) = Some user_type" by simp
  have ma: "lru_m (wildcardsCache full_cache) (target_type abc_type) = None"
    by (simp add: full_cache_def abc_type_def user_type_def)
  have fu: "int (length (lru_l (wildcardsCache full_cache))) = lru_cap (wildcardsCache full_cache)"
    by (simp add: full_cache_def)
  have li: "lru_l (wildcardsCache full_cache) = [int_elem, user_elem]" by (simp add: full_cache_def)
  have mu: "lru_m (wildcardsCache full_cache) (target_type user_type) = Some user_elem"
    by (simp add: full_cache_def abc_type_def user_type_def)
  have cap: "2 \<le> lru_cap (wildcardsCache full_cache)" by (simp add: full_cache_def)
  have fa: "fields_fn (backwards (\<lambda>s. s) (target_type abc_type)) = [''A'', ''B'', ''C.D'', ''C.E'']"
    by (simp add: run_defs backwards_def abc_type_def)
  have ne: "int_elem \<noteq> user_elem" by (simp add: int_elem_def user_elem_def)
  from lru_eviction_and_promotion [OF inv ta, of "backwards (\<lambda>s. s)"] ma fu
  have "Fields (backwards (\<lambda>s. s)) (Val abc_type) full_cache =
        Some (fields_fn (backwards (\<lambda>s. s) (target_type abc_type)),
          \<lparr>wildcardsCache = (wildcardsCache full_cache)
             \<lparr>lru_l := \<lparr>addr = next_addr full_cache,
                         Value = \<lparr>field_t = target_type abc_type,
                                  field_v = fields_fn (backwards (\<lambda>s. s) (target_type abc_type))\<rparr>\<rparr>
                       # butlast (lru_l (wildcardsCache full_cache)),
              lru_m := ((lru_m (wildcardsCache full_cache))
                          (field_t (Value (last (lru_l (wildcardsCache full_cache)))) := None))
                       (target_type abc_type \<mapsto>
                          \<lparr>addr = next_addr full_cache,
                           Value = \<lparr>field_t = target_type abc_type,
                                    field_v = fields_fn (backwards (\<lambda>s. s) (target_type abc_type))\<rparr>\<rparr>)\<rparr>,
           next_addr = Suc (next_addr full_cache)\<rparr>)"
    by blast
  then have A: "\<exists>w'. Fields (backwards (\<lambda>s. s)) (Val abc_type) full_cache = Some ([''A'', ''B'', ''C.D'', ''C.E''], w') \<and>
      lru_l (wildcardsCache w') =
        [\<lparr>addr = 2, Value = \<lparr>field_t = abc_type, field_v = [''A'', ''B'', ''C.D'', ''C.E'']\<rparr>\<rparr>, int_elem] \<and>
      lru_m (wildcardsCache w') user_type = None \<and>
      lru_m (wildcardsCache w') (Basic ''int'') = Some int_elem"
    unfolding fa
    by (simp add: full_cache_def user_elem_def) (simp add: abc_type_def user_type_def)
  note B = lru_eviction_and_promotion [OF inv tu, of "\<lambda>T. []", THEN conjunct2, rule_format, OF mu]
  from B [THEN conjunct1]
  have h: "Fields (\<lambda>T. []) (Val user_type) full_cache =
      Some ([''id'', ''name'', ''address.city'', ''address.zip''],
        full_cache\<lparr>wildcardsCache := (wildcardsCache full_cache)\<lparr>lru_l := [user_elem, int_elem]\<rparr>\<rparr>)"
    using ne by (simp add: li) (simp add: user_elem_def)
  let ?w1 = "full_cache\<lparr>wildcardsCache := (wildcardsCache full_cache)\<lparr>lru_l := [user_elem, int_elem]\<rparr>\<rparr>"
  have "cache_inv ?w1" using inv h by (rule Fields_inv)
  from Fields_total [OF this, of "backwards (\<lambda>s. s)" "Val abc_type"]
  obtain cols2 w2 where f2: "Fields (backwards (\<lambda>s. s)) (Val abc_type) ?w1 = Some (cols2, w2)"
    by blast
  from B [THEN conjunct2, rule_format, OF cap h ta ma f2]
  have "lru_m (wildcardsCache w2) user_type = Some user_elem \<and> user_elem \<in> set (lru_l (wildcardsCache w2))"
    by (simp add: user_type_def)
  with h f2 have C: "\<exists>w1 w2 cols2.
      Fields (\<lambda>T. []) (Val user_type) full_cache =
        Some ([''id'', ''name'', ''address.city'', ''address.zip''], w1) \<and>
      lru_l (wildcardsCache w1) = [user_elem, int_elem] \<and>
      Fields (backwards (\<lambda>s. s)) (Val abc_type) w1 = Some (cols2, w2) \<and>
      lru_m (wildcardsCache w2) user_type = Some user_elem \<and>
      user_elem \<in> set (lru_l (wildcardsCache w2))"
    by (intro exI [of _ ?w1] exI [of _ w2] exI [of _ cols2]) simp
  from inv ta ma fu li A mu C show ?thesis by blast
qed

section \<open>The sorted columns are in the lexicographic order of the specification\<close>















end
